theory Spec2Isabelle
  imports Main
begin

section \<open>httpcheck: a shallow embedding of \<^verbatim>\<open>src/httpcheck.go\<close>\<close>

text \<open>
  The program is one function, \<^verbatim>\<open>main\<close>: it parses the argument list, resolves
  the indirections through the environment, parses the accepted status codes, issues one
  HTTP request and maps the response to an exit status. The embedding follows that
  order. A Go \<^verbatim>\<open>string\<close> is a sequence of bytes and is modelled as a \<open>string\<close>
  (a list of 8-bit characters); a Go \<^verbatim>\<open>int\<close> is modelled as an \<open>int\<close>, with
  the 64-bit range written out where \<^verbatim>\<open>strconv.Atoi\<close> checks it.
\<close>

subsection \<open>What the program writes and does\<close>

text \<open>
  Every \<^verbatim>\<open>fmt.Println\<close>, \<^verbatim>\<open>fmt.Printf\<close> and \<^verbatim>\<open>fmt.Fprintf\<close> of
  the source is one \<open>Print\<close> event with the stream it writes to and a message that keeps
  the format's arguments. Not kept are the Portuguese wording, the text of a library
  error printed with \<^verbatim>\<open>%v\<close>, and the upper-cased method printed at line 152, which
  beyond ASCII depends on the Unicode tables. The request and the read of the response
  body are events as well, so that a trace tells whether they happened.
\<close>

datatype stream = Stdout | Stderr

datatype message =
    Usage                                   (* printHelp, lines 309-352 *)
  | NeedsArgument string                    (* lines 99, 107, 115, 123, 142, 156, 164, 172 *)
  | InvalidTimeout string                   (* line 136 *)
  | InvalidMethod                           (* line 152 *)
  | UnknownOption string                    (* line 176 *)
  | UsingUrlEnv string string               (* line 190 *)
  | UsingCodesEnv string string             (* line 197 *)
  | UsingBodyEnv string string              (* line 204 *)
  | UrlRequired                             (* line 209 *)
  | BadAcceptedCode string                  (* line 222 *)
  | InsecureWarning                         (* line 238 *)
  | RequestFailed string string             (* line 254 *)
  | BodyReadFailed                          (* line 266 *)
  | BodyNotFound string                     (* line 273 *)
  | BodyFound string                        (* line 277 *)
  | StatusAccepted string string int        (* line 286 *)
  | StatusNotAccepted string string int string  (* line 291 *)
  | StatusUnchecked string string int       (* line 298 *)

datatype event =
    Print stream message
  | HttpRequest string string               (* client.Get(url) / client.Head(url) *)
  | ReadBody                                (* io.ReadAll(resp.Body) *)

text \<open>\<^verbatim>\<open>printHelp\<close> (lines 309-352) writes the usage text to the standard output.\<close>

definition printHelp :: "event list" where
  "printHelp = [Print Stdout Usage]"

text \<open>
  A stage of \<^verbatim>\<open>main\<close> yields what it wrote and either the status given to
  \<^verbatim>\<open>os.Exit\<close> (\<open>Inl\<close>) or the value the next stage continues with (\<open>Inr\<close>).
\<close>

type_synonym 'a proc = "event list \<times> (int + 'a)"

definition andThen :: "'a proc \<Rightarrow> ('a \<Rightarrow> 'b proc) \<Rightarrow> 'b proc" where
  "andThen p f =
     (case p of
        (out, Inl code) \<Rightarrow> (out, Inl code)
      | (out, Inr x) \<Rightarrow> (case f x of (out', r) \<Rightarrow> (out @ out', r)))"

subsection \<open>The library functions the program calls\<close>

text \<open>
  These are functions of Go's standard library, not of the program: each is modelled
  from its documented behaviour, as far as the program depends on it.

  \<^verbatim>\<open>strconv.Atoi\<close>: an optional sign, then one or more decimal digits, and a
  value that fits \<^verbatim>\<open>int\<close>, taken to be 64 bits wide as on the usual platforms;
  everything else is an error (\<open>None\<close>).
\<close>

definition isDigit :: "char \<Rightarrow> bool" where
  "isDigit c \<longleftrightarrow> (48::nat) \<le> of_char c \<and> of_char c \<le> (57::nat)"

fun parseDigits :: "nat \<Rightarrow> string \<Rightarrow> nat option" where
  "parseDigits n [] = Some n"
| "parseDigits n (c # cs) =
     (if isDigit c then parseDigits (n * 10 + (of_char c - 48)) cs else None)"

definition Atoi :: "string \<Rightarrow> int option" where
  "Atoi s =
     (case s of
        [] \<Rightarrow> None
      | c # cs \<Rightarrow>
          (let neg = (c = CHR ''-'');
               ds = (if c = CHR ''-'' \<or> c = CHR ''+'' then cs else s)
           in if ds = [] then None
              else (case parseDigits 0 ds of
                      None \<Rightarrow> None
                    | Some n \<Rightarrow>
                        (let i = (if neg then - int n else int n)
                         in if - (2 ^ 63) \<le> i \<and> i < 2 ^ 63 then Some i else None))))"

text \<open>
  \<^verbatim>\<open>strings.TrimSpace\<close> removes the leading and the trailing white space, as
  Unicode defines it, of a UTF-8 string. \<open>spaceRunes\<close> lists the UTF-8 encodings of
  the code points for which \<^verbatim>\<open>unicode.IsSpace\<close> holds: the six ASCII ones, U+0085,
  U+00A0, U+1680, U+2000 to U+200A, U+2028, U+2029, U+202F, U+205F and U+3000.
\<close>

definition spaceRunes :: "string list" where
  "spaceRunes =
     [[CHR 0x09], [CHR 0x0A], [CHR 0x0B], [CHR 0x0C], [CHR 0x0D], [CHR 0x20],
      [CHR 0xC2, CHR 0x85], [CHR 0xC2, CHR 0xA0],
      [CHR 0xE1, CHR 0x9A, CHR 0x80],
      [CHR 0xE2, CHR 0x80, CHR 0x80], [CHR 0xE2, CHR 0x80, CHR 0x81],
      [CHR 0xE2, CHR 0x80, CHR 0x82], [CHR 0xE2, CHR 0x80, CHR 0x83],
      [CHR 0xE2, CHR 0x80, CHR 0x84], [CHR 0xE2, CHR 0x80, CHR 0x85],
      [CHR 0xE2, CHR 0x80, CHR 0x86], [CHR 0xE2, CHR 0x80, CHR 0x87],
      [CHR 0xE2, CHR 0x80, CHR 0x88], [CHR 0xE2, CHR 0x80, CHR 0x89],
      [CHR 0xE2, CHR 0x80, CHR 0x8A],
      [CHR 0xE2, CHR 0x80, CHR 0xA8], [CHR 0xE2, CHR 0x80, CHR 0xA9],
      [CHR 0xE2, CHR 0x80, CHR 0xAF],
      [CHR 0xE2, CHR 0x81, CHR 0x9F],
      [CHR 0xE3, CHR 0x80, CHR 0x80]]"

text \<open>\<^verbatim>\<open>strings.HasPrefix\<close> and \<^verbatim>\<open>strings.HasSuffix\<close>.\<close>

definition HasPrefix :: "string \<Rightarrow> string \<Rightarrow> bool" where
  "HasPrefix s p \<longleftrightarrow> length p \<le> length s \<and> take (length p) s = p"

definition HasSuffix :: "string \<Rightarrow> string \<Rightarrow> bool" where
  "HasSuffix s p \<longleftrightarrow> length p \<le> length s \<and> drop (length s - length p) s = p"

text \<open>The width in bytes of the white-space rune a string starts (ends) with, or 0.\<close>

definition leadingSpace :: "string \<Rightarrow> nat" where
  "leadingSpace s =
     (case List.find (HasPrefix s) spaceRunes of None \<Rightarrow> 0 | Some w \<Rightarrow> length w)"

definition trailingSpace :: "string \<Rightarrow> nat" where
  "trailingSpace s =
     (case List.find (HasSuffix s) spaceRunes of None \<Rightarrow> 0 | Some w \<Rightarrow> length w)"

lemma leadingSpace_le: "leadingSpace s \<le> length s"
  by (auto simp: leadingSpace_def find_Some_iff HasPrefix_def split: option.splits)

lemma trailingSpace_le: "trailingSpace s \<le> length s"
  by (auto simp: trailingSpace_def find_Some_iff HasSuffix_def split: option.splits)

function TrimLeft :: "string \<Rightarrow> string" where
  "TrimLeft s = (if leadingSpace s = 0 then s else TrimLeft (drop (leadingSpace s) s))"
  by pat_completeness auto
termination
proof (relation "measure length")
  show "wf (measure length)" by simp
next
  fix s :: string
  assume "leadingSpace s \<noteq> 0"
  moreover have "leadingSpace s \<le> length s" by (rule leadingSpace_le)
  ultimately show "(drop (leadingSpace s) s, s) \<in> measure length" by simp
qed

function TrimRight :: "string \<Rightarrow> string" where
  "TrimRight s =
     (if trailingSpace s = 0 then s else TrimRight (take (length s - trailingSpace s) s))"
  by pat_completeness auto
termination
proof (relation "measure length")
  show "wf (measure length)" by simp
next
  fix s :: string
  assume "trailingSpace s \<noteq> 0"
  moreover have "trailingSpace s \<le> length s" by (rule trailingSpace_le)
  ultimately show "(take (length s - trailingSpace s) s, s) \<in> measure length" by simp
qed

declare TrimLeft.simps [simp del] TrimRight.simps [simp del]

definition TrimSpace :: "string \<Rightarrow> string" where
  "TrimSpace s = TrimRight (TrimLeft s)"

text \<open>
  \<^verbatim>\<open>strings.Split(s, ",")\<close>: the pieces between the commas, one more than there
  are commas (so one empty piece for the empty string).
\<close>

fun Split :: "string \<Rightarrow> string list" where
  "Split [] = [[]]"
| "Split (c # cs) =
     (if c = CHR '','' then [] # Split cs
      else (case Split cs of [] \<Rightarrow> [[c]] | p # ps \<Rightarrow> (c # p) # ps))"

text \<open>
  \<^verbatim>\<open>strings.ToUpper\<close>, on the letters a to z. Go also maps the letters beyond
  ASCII and replaces invalid UTF-8, but none of these results is a letter of GET or HEAD,
  so the comparisons of line 148, the only use made of the result here, come out the
  same.
\<close>

definition toUpperByte :: "char \<Rightarrow> char" where
  "toUpperByte c =
     (if (97::nat) \<le> of_char c \<and> of_char c \<le> (122::nat)
      then char_of (of_char c - (32::nat)) else c)"

definition ToUpper :: "string \<Rightarrow> string" where
  "ToUpper s = map toUpperByte s"

text \<open>\<^verbatim>\<open>strings.Contains(s, substr)\<close>.\<close>

fun Contains :: "string \<Rightarrow> string \<Rightarrow> bool" where
  "Contains [] substr = (substr = [])"
| "Contains (c # cs) substr = (HasPrefix (c # cs) substr \<or> Contains cs substr)"

text \<open>\<^verbatim>\<open>os.Getenv\<close>: the value of the variable, empty when it is not set.\<close>

definition Getenv :: "(string \<rightharpoonup> string) \<Rightarrow> string \<Rightarrow> string" where
  "Getenv env name = (case env name of None \<Rightarrow> [] | Some val \<Rightarrow> val)"

subsection \<open>The outside world\<close>

text \<open>
  The process environment, and the answer of the HTTP client to a request with a given
  method, URL, timeout in seconds and \<^verbatim>\<open>InsecureSkipVerify\<close> setting: \<open>None\<close>
  for a transport error, or a response with its status code and the result of reading
  its body (\<open>None\<close> when the read fails). The answer is that of the client in this
  world, with whatever the client itself takes from the environment (the default
  transport reads the proxy variables): no property below changes the environment of a
  world and keeps its client.
\<close>

datatype response = Response (StatusCode: int) (Body: "string option")

record world =
  environ :: "string \<rightharpoonup> string"
  roundTrip :: "string \<Rightarrow> string \<Rightarrow> int \<Rightarrow> bool \<Rightarrow> response option"

subsection \<open>The variables of \<^verbatim>\<open>main\<close> (lines 72-82)\<close>

record vars =
  url :: string
  urlEnvName :: string
  acceptedCodesStr :: string
  acceptedCodesEnvName :: string
  verbose :: bool
  insecureSkipVerify :: bool
  "help" :: bool
  timeoutSeconds :: int
  httpMethod :: string
  bodyContains :: string
  bodyContainsEnvName :: string

definition vars0 :: vars where
  "vars0 =
     \<lparr>url = [], urlEnvName = [], acceptedCodesStr = [], acceptedCodesEnvName = [],
      verbose = False, insecureSkipVerify = False, help = False, timeoutSeconds = 5,
      httpMethod = ''GET'', bodyContains = [], bodyContainsEnvName = []\<rparr>"

subsection \<open>The argument loop (lines 91-180)\<close>

text \<open>The \<^verbatim>\<open>case\<close> of \<^verbatim>\<open>switch arg\<close> that an argument selects.\<close>

datatype option_case =
    CaseUrl | CaseUrlEnvName | CaseAcceptedCodes | CaseAcceptedCodesEnvName
  | CaseVerbose | CaseInsecure | CaseHelp | CaseTimeout | CaseMethod
  | CaseBodyContains | CaseBodyContainsEnvName | CaseDefault

definition switchArg :: "string \<Rightarrow> option_case" where
  "switchArg arg =
     (if arg = ''-u'' \<or> arg = ''--url'' then CaseUrl
      else if arg = ''-U'' \<or> arg = ''--url-env-name'' then CaseUrlEnvName
      else if arg = ''-c'' \<or> arg = ''--accepted-codes'' then CaseAcceptedCodes
      else if arg = ''-C'' \<or> arg = ''--accepted-codes-env-name'' then CaseAcceptedCodesEnvName
      else if arg = ''-v'' \<or> arg = ''--verbose'' then CaseVerbose
      else if arg = ''-k'' \<or> arg = ''--insecure'' then CaseInsecure
      else if arg = ''-h'' \<or> arg = ''--help'' then CaseHelp
      else if arg = ''-t'' \<or> arg = ''--timeout'' then CaseTimeout
      else if arg = ''-m'' \<or> arg = ''--method'' then CaseMethod
      else if arg = ''-b'' \<or> arg = ''--body-contains'' then CaseBodyContains
      else if arg = ''-B'' \<or> arg = ''--body-contains-env-name'' then CaseBodyContainsEnvName
      else CaseDefault)"

text \<open>
  The body of the loop \<^verbatim>\<open>for i := 0; i < len(args); i++\<close>, at \<^verbatim>\<open>arg = args[i]\<close>
  with \<open>rest\<close> the arguments after it: an option with a value reads \<^verbatim>\<open>args[i+1]\<close>
  when \<^verbatim>\<open>i+1 < len(args)\<close> and steps over it. The body yields the variables and the
  arguments still to be read.
\<close>

definition parseArg :: "vars \<Rightarrow> string \<Rightarrow> string list \<Rightarrow> (vars \<times> string list) proc" where
  "parseArg v arg rest =
     (case switchArg arg of
        CaseUrl \<Rightarrow>
          (case rest of
             a # rest' \<Rightarrow> ([], Inr (v\<lparr>url := a\<rparr>, rest'))
           | [] \<Rightarrow> ([Print Stdout (NeedsArgument ''-u/--url'')], Inl 1))
      | CaseUrlEnvName \<Rightarrow>
          (case rest of
             a # rest' \<Rightarrow> ([], Inr (v\<lparr>urlEnvName := a\<rparr>, rest'))
           | [] \<Rightarrow> ([Print Stdout (NeedsArgument ''-U/--url-env-name'')], Inl 1))
      | CaseAcceptedCodes \<Rightarrow>
          (case rest of
             a # rest' \<Rightarrow> ([], Inr (v\<lparr>acceptedCodesStr := a\<rparr>, rest'))
           | [] \<Rightarrow> ([Print Stdout (NeedsArgument ''-c/--accepted-codes'')], Inl 1))
      | CaseAcceptedCodesEnvName \<Rightarrow>
          (case rest of
             a # rest' \<Rightarrow> ([], Inr (v\<lparr>acceptedCodesEnvName := a\<rparr>, rest'))
           | [] \<Rightarrow> ([Print Stdout (NeedsArgument ''-C/--accepted-codes-env-name'')], Inl 1))
      | CaseVerbose \<Rightarrow> ([], Inr (v\<lparr>verbose := True\<rparr>, rest))
      | CaseInsecure \<Rightarrow> ([], Inr (v\<lparr>insecureSkipVerify := True\<rparr>, rest))
      | CaseHelp \<Rightarrow> ([], Inr (v\<lparr>help := True\<rparr>, rest))
      | CaseTimeout \<Rightarrow>
          (case rest of
             a # rest' \<Rightarrow>
               (case Atoi a of
                  None \<Rightarrow> ([Print Stderr (InvalidTimeout a)], Inl 1)
                | Some t \<Rightarrow> ([], Inr (v\<lparr>timeoutSeconds := t\<rparr>, rest')))
           | [] \<Rightarrow> ([Print Stdout (NeedsArgument ''-t/--timeout'')], Inl 1))
      | CaseMethod \<Rightarrow>
          (case rest of
             a # rest' \<Rightarrow>
               (if ToUpper a = ''GET'' \<or> ToUpper a = ''HEAD''
                then ([], Inr (v\<lparr>httpMethod := ToUpper a\<rparr>, rest'))
                else ([Print Stderr InvalidMethod], Inl 1))
           | [] \<Rightarrow> ([Print Stdout (NeedsArgument ''-m/--method'')], Inl 1))
      | CaseBodyContains \<Rightarrow>
          (case rest of
             a # rest' \<Rightarrow> ([], Inr (v\<lparr>bodyContains := a\<rparr>, rest'))
           | [] \<Rightarrow> ([Print Stdout (NeedsArgument ''-b/--body-contains'')], Inl 1))
      | CaseBodyContainsEnvName \<Rightarrow>
          (case rest of
             a # rest' \<Rightarrow> ([], Inr (v\<lparr>bodyContainsEnvName := a\<rparr>, rest'))
           | [] \<Rightarrow> ([Print Stdout (NeedsArgument ''-B/--body-contains-env-name'')], Inl 1))
      | CaseDefault \<Rightarrow> (Print Stderr (UnknownOption arg) # printHelp, Inl 1))"

lemma parseArg_rest:
  "parseArg v arg rest = (out, Inr (v', rest')) \<Longrightarrow> length rest' \<le> length rest"
  by (cases "switchArg arg"; cases rest)
     (simp_all add: parseArg_def split: option.splits if_splits)

text \<open>The loop: the body, then the loop again on what is left, until nothing is.\<close>

function parseArgs :: "vars \<Rightarrow> string list \<Rightarrow> vars proc" where
  "parseArgs v [] = ([], Inr v)"
| "parseArgs v (arg # rest) =
     (case parseArg v arg rest of
        (out, Inl code) \<Rightarrow> (out, Inl code)
      | (out, Inr (v', rest')) \<Rightarrow>
          (case parseArgs v' rest' of (out', r) \<Rightarrow> (out @ out', r)))"
  by pat_completeness auto
termination
  apply (relation "measure (\<lambda>(v, args). length args)")
   apply simp
  apply clarsimp
  subgoal for v arg rest out v' rest'
    using parseArg_rest [of v arg rest out v' rest'] by simp
  done

subsection \<open>Resolution through the environment (lines 187-212)\<close>

text \<open>\<^verbatim>\<open>if verbose { fmt.Printf(...) }\<close>.\<close>

definition say :: "bool \<Rightarrow> stream \<Rightarrow> message \<Rightarrow> event list" where
  "say verb str msg = (if verb then [Print str msg] else [])"

text \<open>Lines 187-192, 194-199 and 201-206, then the test of lines 208-212.\<close>

definition resolveUrl :: "(string \<rightharpoonup> string) \<Rightarrow> vars \<Rightarrow> event list \<times> vars" where
  "resolveUrl env v =
     (if urlEnvName v \<noteq> [] then
        (say (verbose v) Stdout (UsingUrlEnv (urlEnvName v) (Getenv env (urlEnvName v))),
         v\<lparr>url := Getenv env (urlEnvName v)\<rparr>)
      else ([], v))"

definition resolveCodes :: "(string \<rightharpoonup> string) \<Rightarrow> vars \<Rightarrow> event list \<times> vars" where
  "resolveCodes env v =
     (if acceptedCodesEnvName v \<noteq> [] \<and> bodyContainsEnvName v = [] \<and> bodyContains v = [] then
        (say (verbose v) Stdout
           (UsingCodesEnv (acceptedCodesEnvName v) (Getenv env (acceptedCodesEnvName v))),
         v\<lparr>acceptedCodesStr := Getenv env (acceptedCodesEnvName v)\<rparr>)
      else ([], v))"

definition resolveBody :: "(string \<rightharpoonup> string) \<Rightarrow> vars \<Rightarrow> event list \<times> vars" where
  "resolveBody env v =
     (if bodyContainsEnvName v \<noteq> [] then
        (say (verbose v) Stdout
           (UsingBodyEnv (bodyContainsEnvName v) (Getenv env (bodyContainsEnvName v))),
         v\<lparr>bodyContains := Getenv env (bodyContainsEnvName v)\<rparr>)
      else ([], v))"

definition resolveEnv :: "(string \<rightharpoonup> string) \<Rightarrow> vars \<Rightarrow> vars proc" where
  "resolveEnv env v =
     (case resolveUrl env v of (out1, v1) \<Rightarrow>
      case resolveCodes env v1 of (out2, v2) \<Rightarrow>
      case resolveBody env v2 of (out3, v3) \<Rightarrow>
        if url v3 = [] then
          (out1 @ out2 @ out3 @ Print Stdout UrlRequired # printHelp, Inl 1)
        else (out1 @ out2 @ out3, Inr v3))"

subsection \<open>The accepted codes (lines 214-227)\<close>

text \<open>
  \<^verbatim>\<open>map[int]bool\<close> is a map from \<open>int\<close> to \<open>bool\<close>; reading a key that is
  not in a Go map gives \<^verbatim>\<open>false\<close>. The variable \<^verbatim>\<open>acceptedCodeMap\<close> stays
  \<^verbatim>\<open>nil\<close> (\<open>None\<close>) when the string is empty.
\<close>

type_synonym codemap = "int \<rightharpoonup> bool"

definition lookup :: "codemap \<Rightarrow> int \<Rightarrow> bool" where
  "lookup m k = (case m k of None \<Rightarrow> False | Some b \<Rightarrow> b)"

fun parseCodes :: "codemap \<Rightarrow> string list \<Rightarrow> codemap proc" where
  "parseCodes m [] = ([], Inr m)"
| "parseCodes m (codeStr # rest) =
     (case Atoi (TrimSpace codeStr) of
        None \<Rightarrow> ([Print Stderr (BadAcceptedCode codeStr)], Inl 1)
      | Some code \<Rightarrow> parseCodes (m(code \<mapsto> True)) rest)"

definition parseAcceptedCodes :: "string \<Rightarrow> codemap option proc" where
  "parseAcceptedCodes s =
     (if s \<noteq> [] then
        andThen (parseCodes Map.empty (Split s)) (\<lambda>m. ([], Inr (Some m)))
      else ([], Inr None))"

subsection \<open>The request (lines 229-258)\<close>

text \<open>
  \<^verbatim>\<open>httpMethod\<close> only ever holds GET or HEAD. Were it anything else, the
  \<^verbatim>\<open>switch\<close> would leave \<^verbatim>\<open>resp\<close> and \<^verbatim>\<open>err\<close> nil and
  \<^verbatim>\<open>resp.Body\<close> would panic, which ends a Go program with status 2.
\<close>

definition request :: "world \<Rightarrow> vars \<Rightarrow> response proc" where
  "request w v =
     (let warn = (if insecureSkipVerify v then say (verbose v) Stdout InsecureWarning else [])
      in if httpMethod v = ''GET'' \<or> httpMethod v = ''HEAD'' then
           (case roundTrip w (httpMethod v) (url v) (timeoutSeconds v) (insecureSkipVerify v) of
              None \<Rightarrow>
                (warn @ [HttpRequest (httpMethod v) (url v)]
                   @ say (verbose v) Stderr (RequestFailed (url v) (httpMethod v)),
                 Inl 1)
            | Some resp \<Rightarrow> (warn @ [HttpRequest (httpMethod v) (url v)], Inr resp))
         else (warn, Inl 2))"

subsection \<open>The verdict (lines 260-306)\<close>

definition checkBody :: "vars \<Rightarrow> response \<Rightarrow> bool proc" where
  "checkBody v resp =
     (if bodyContains v \<noteq> [] \<and> httpMethod v = ''GET'' then
        (case Body resp of
           None \<Rightarrow> (ReadBody # say (verbose v) Stderr BodyReadFailed, Inl 1)
         | Some body \<Rightarrow>
             if \<not> Contains body (bodyContains v) then
               (ReadBody # say (verbose v) Stderr (BodyNotFound (bodyContains v)), Inr False)
             else (ReadBody # say (verbose v) Stdout (BodyFound (bodyContains v)), Inr True))
      else ([], Inr True))"

text \<open>
  The last branch of the chain has no \<^verbatim>\<open>else\<close>: there \<^verbatim>\<open>main\<close> would
  return, and the process would end with status 0.
\<close>

definition checkStatus :: "vars \<Rightarrow> codemap option \<Rightarrow> response \<Rightarrow> bool \<Rightarrow> event list \<times> int" where
  "checkStatus v acceptedCodeMap resp bodyCheckPassed =
     (if bodyContains v = [] \<or> bodyCheckPassed then
        (case acceptedCodeMap of
           Some m \<Rightarrow>
             if lookup m (StatusCode resp) then
               (say (verbose v) Stdout
                  (StatusAccepted (url v) (httpMethod v) (StatusCode resp)), 0)
             else
               (say (verbose v) Stdout
                  (StatusNotAccepted (url v) (httpMethod v) (StatusCode resp)
                     (acceptedCodesStr v)), 1)
         | None \<Rightarrow>
             if bodyContains v = [] then
               (say (verbose v) Stdout
                  (StatusUnchecked (url v) (httpMethod v) (StatusCode resp)), 0)
             else if bodyCheckPassed then ([], 0)
             else ([], 0))
      else ([], 1))"

definition evaluate :: "vars \<Rightarrow> codemap option \<Rightarrow> response \<Rightarrow> event list \<times> int" where
  "evaluate v acceptedCodeMap resp =
     (case checkBody v resp of
        (out, Inl code) \<Rightarrow> (out, code)
      | (out, Inr bodyCheckPassed) \<Rightarrow>
          (case checkStatus v acceptedCodeMap resp bodyCheckPassed of
             (out', code) \<Rightarrow> (out @ out', code)))"

subsection \<open>\<^verbatim>\<open>main\<close>\<close>

text \<open>
  Lines 182-227, after the argument loop: the help, the resolved variables and
  \<^verbatim>\<open>acceptedCodeMap\<close>.
\<close>

definition afterArgs :: "(string \<rightharpoonup> string) \<Rightarrow> vars \<Rightarrow> (vars \<times> codemap option) proc" where
  "afterArgs env v =
     (if help v then (printHelp, Inl 0)
      else andThen (resolveEnv env v) (\<lambda>cfg.
             andThen (parseAcceptedCodes (acceptedCodesStr cfg)) (\<lambda>acceptedCodeMap.
               ([], Inr (cfg, acceptedCodeMap)))))"

text \<open>Lines 91-227: from the arguments and the environment to a configuration, or an exit.\<close>

definition configure :: "(string \<rightharpoonup> string) \<Rightarrow> string list \<Rightarrow> (vars \<times> codemap option) proc" where
  "configure env args = andThen (parseArgs vars0 args) (afterArgs env)"

text \<open>
  Lines 229-306: the request and the verdict; every path ends in an exit. (Were there a
  path to the end of \<^verbatim>\<open>main\<close>, the process would end with status 0.)
\<close>

definition probe :: "world \<Rightarrow> vars \<times> codemap option \<Rightarrow> unit proc" where
  "probe w c =
     (case c of (cfg, acceptedCodeMap) \<Rightarrow>
        andThen (request w cfg) (\<lambda>resp.
          case evaluate cfg acceptedCodeMap resp of (out, code) \<Rightarrow> (out, Inl code)))"

definition main :: "world \<Rightarrow> string list \<Rightarrow> event list \<times> int" where
  "main w args =
     (if args = [] then (printHelp, 0)
      else (case andThen (configure (environ w) args) (probe w) of
              (out, Inl code) \<Rightarrow> (out, code)
            | (out, Inr u) \<Rightarrow> (out, 0)))"

definition exitCode :: "event list \<times> int \<Rightarrow> int" where
  "exitCode r = snd r"

definition trace :: "event list \<times> int \<Rightarrow> event list" where
  "trace r = fst r"

subsection \<open>Environments and worlds used as examples\<close>

definition envOf :: "(string \<times> string) list \<Rightarrow> (string \<rightharpoonup> string)" where
  "envOf bindings = map_of bindings"

text \<open>A server that answers every request with the given status code and body.\<close>

definition serves :: "int \<Rightarrow> string \<Rightarrow> (string \<rightharpoonup> string) \<Rightarrow> world" where
  "serves status body env =
     \<lparr>environ = env, roundTrip = (\<lambda>method u t k. Some (Response status (Some body)))\<rparr>"

section \<open>Properties\<close>

subsection \<open>Sequencing and the argument loop\<close>

lemma snd_andThen:
  "snd (andThen p f) = (case snd p of Inl c \<Rightarrow> Inl c | Inr x \<Rightarrow> snd (f x))"
  by (cases p) (auto simp: andThen_def split: sum.splits prod.splits)

lemma parseArg_silent: "parseArg v arg rest = (out, Inr x) \<Longrightarrow> out = []"
  by (cases "switchArg arg"; cases rest)
     (simp_all add: parseArg_def split: option.splits if_splits)

lemma parseArgs_Cons_Inr:
  assumes "parseArgs v (arg # rest) = (out, Inr v'')"
  obtains v' rest' where "parseArg v arg rest = ([], Inr (v', rest'))"
    and "parseArgs v' rest' = (out, Inr v'')"
proof -
  obtain o1 r1 where p: "parseArg v arg rest = (o1, r1)" by (cases "parseArg v arg rest")
  with assms obtain v' rest' where r1: "r1 = Inr (v', rest')"
    by (cases r1) auto
  from p r1 have "o1 = []" by (simp add: parseArg_silent)
  with p r1 assms that show thesis by (auto split: prod.splits)
qed

lemma parseArgs_invariant:
  assumes "parseArgs v args = (out, Inr v')" and "I v"
    and step: "\<And>v arg rest v1 rest1. I v \<Longrightarrow> parseArg v arg rest = ([], Inr (v1, rest1)) \<Longrightarrow> I v1"
  shows "I v'"
  using assms(1,2)
proof (induction v args arbitrary: out rule: parseArgs.induct)
  case (1 v)
  then show ?case by simp
next
  case (2 v arg rest)
  from 2(2) obtain v1 rest1 where s: "parseArg v arg rest = ([], Inr (v1, rest1))"
    and p: "parseArgs v1 rest1 = (out, Inr v')"
    by (rule parseArgs_Cons_Inr)
  from step[OF 2(3) s] have "I v1" .
  from 2(1)[OF s[symmetric] refl refl p this] show ?case .
qed

lemma parseArgs_silent: "parseArgs v args = (out, Inr v') \<Longrightarrow> out = []"
proof (induction v args arbitrary: out rule: parseArgs.induct)
  case (1 v)
  then show ?case by simp
next
  case (2 v arg rest)
  from 2(2) obtain v1 rest1 where s: "parseArg v arg rest = ([], Inr (v1, rest1))"
    and p: "parseArgs v1 rest1 = (out, Inr v')"
    by (rule parseArgs_Cons_Inr)
  from 2(1)[OF s[symmetric] refl refl p] show ?case .
qed

lemma parseArg_append:
  "parseArg v arg rest = (out, Inr (v', rest')) \<Longrightarrow>
     parseArg v arg (rest @ ys) = (out, Inr (v', rest' @ ys))"
  by (cases "switchArg arg"; cases rest)
     (auto simp add: parseArg_def split: option.splits if_splits)

lemma parseArgs_append:
  "parseArgs v xs = (out, Inr v') \<Longrightarrow> parseArgs v (xs @ ys) = parseArgs v' ys"
proof (induction v xs arbitrary: out rule: parseArgs.induct)
  case (1 v)
  then show ?case by simp
next
  case (2 v arg rest)
  from 2(2) obtain v1 rest1 where s: "parseArg v arg rest = ([], Inr (v1, rest1))"
    and p: "parseArgs v1 rest1 = (out, Inr v')"
    by (rule parseArgs_Cons_Inr)
  from 2(1)[OF s[symmetric] refl refl p] have "parseArgs v1 (rest1 @ ys) = parseArgs v' ys" .
  with parseArg_append[OF s, of ys] show ?case by simp
qed

lemma switchArg_help: "h = ''-h'' \<or> h = ''--help'' \<Longrightarrow> switchArg h = CaseHelp"
  by (erule disjE; simp add: switchArg_def)

lemma switchArg_verbose: "f = ''-v'' \<or> f = ''--verbose'' \<Longrightarrow> switchArg f = CaseVerbose"
  by (erule disjE; simp add: switchArg_def)

lemma switchArg_timeout: "t = ''-t'' \<or> t = ''--timeout'' \<Longrightarrow> switchArg t = CaseTimeout"
  by (erule disjE; simp add: switchArg_def)

lemma parseArgs_CaseHelp:
  "switchArg h = CaseHelp \<Longrightarrow> parseArgs v (h # ys) = parseArgs (v\<lparr>help := True\<rparr>) ys"
  by (simp add: parseArg_def)

lemma parseArgs_CaseVerbose:
  "switchArg f = CaseVerbose \<Longrightarrow> parseArgs v (f # ys) = parseArgs (v\<lparr>verbose := True\<rparr>) ys"
  by (simp add: parseArg_def)

lemma parseArgs_CaseTimeout:
  "switchArg t = CaseTimeout \<Longrightarrow>
     parseArgs v (t # a # ys) =
       (case Atoi a of
          None \<Rightarrow> ([Print Stderr (InvalidTimeout a)], Inl 1)
        | Some n \<Rightarrow> parseArgs (v\<lparr>timeoutSeconds := n\<rparr>) ys)"
  by (simp add: parseArg_def split: option.splits)

lemma parseArg_verbose:
  "parseArg (v\<lparr>verbose := True\<rparr>) arg rest =
     (case parseArg v arg rest of
        (out, Inl code) \<Rightarrow> (out, Inl code)
      | (out, Inr (v', rest')) \<Rightarrow> (out, Inr (v'\<lparr>verbose := True\<rparr>, rest')))"
  by (cases "switchArg arg"; cases rest) (simp_all add: parseArg_def split: option.splits)

lemma parseArgs_verbose:
  "parseArgs (v\<lparr>verbose := True\<rparr>) args =
     (case parseArgs v args of
        (out, Inl code) \<Rightarrow> (out, Inl code)
      | (out, Inr v') \<Rightarrow> (out, Inr (v'\<lparr>verbose := True\<rparr>)))"
proof (induction v args rule: parseArgs.induct)
  case (1 v)
  then show ?case by simp
next
  case (2 v arg rest)
  obtain o1 r1 where s: "parseArg v arg rest = (o1, r1)" by (cases "parseArg v arg rest")
  show ?case
  proof (cases r1)
    case (Inl code)
    with s parseArg_verbose[of v arg rest] show ?thesis by simp
  next
    case (Inr p)
    obtain v1 rest1 where p: "p = (v1, rest1)" by (cases p)
    from s Inr p have s': "parseArg v arg rest = (o1, Inr (v1, rest1))" by simp
    from 2[OF s'[symmetric] refl refl]
    have ih: "parseArgs (v1\<lparr>verbose := True\<rparr>) rest1 =
       (case parseArgs v1 rest1 of
          (out, Inl code) \<Rightarrow> (out, Inl code)
        | (out, Inr v') \<Rightarrow> (out, Inr (v'\<lparr>verbose := True\<rparr>)))" .
    from s' parseArg_verbose[of v arg rest]
    have "parseArg (v\<lparr>verbose := True\<rparr>) arg rest = (o1, Inr (v1\<lparr>verbose := True\<rparr>, rest1))"
      by simp
    with s' ih show ?thesis by (simp split: prod.splits sum.splits)
  qed
qed

lemma switchArg_cases:
  "(switchArg arg = CaseUrl \<longleftrightarrow> arg = ''-u'' \<or> arg = ''--url'')
   \<and> (switchArg arg = CaseUrlEnvName \<longleftrightarrow> arg = ''-U'' \<or> arg = ''--url-env-name'')
   \<and> (switchArg arg = CaseAcceptedCodes \<longleftrightarrow> arg = ''-c'' \<or> arg = ''--accepted-codes'')
   \<and> (switchArg arg = CaseAcceptedCodesEnvName \<longleftrightarrow>
          arg = ''-C'' \<or> arg = ''--accepted-codes-env-name'')
   \<and> (switchArg arg = CaseVerbose \<longleftrightarrow> arg = ''-v'' \<or> arg = ''--verbose'')
   \<and> (switchArg arg = CaseInsecure \<longleftrightarrow> arg = ''-k'' \<or> arg = ''--insecure'')
   \<and> (switchArg arg = CaseHelp \<longleftrightarrow> arg = ''-h'' \<or> arg = ''--help'')
   \<and> (switchArg arg = CaseTimeout \<longleftrightarrow> arg = ''-t'' \<or> arg = ''--timeout'')
   \<and> (switchArg arg = CaseMethod \<longleftrightarrow> arg = ''-m'' \<or> arg = ''--method'')
   \<and> (switchArg arg = CaseBodyContains \<longleftrightarrow> arg = ''-b'' \<or> arg = ''--body-contains'')
   \<and> (switchArg arg = CaseBodyContainsEnvName \<longleftrightarrow>
          arg = ''-B'' \<or> arg = ''--body-contains-env-name'')"
  by (simp add: switchArg_def)

lemma parseArg_exit_1: "parseArg v arg rest = (out, Inl code) \<Longrightarrow> code = 1"
  by (cases "switchArg arg"; cases rest)
     (simp_all add: parseArg_def split: option.splits if_splits)

lemma parseArgs_exit_1: "parseArgs v args = (out, Inl code) \<Longrightarrow> code = 1"
proof (induction v args arbitrary: out rule: parseArgs.induct)
  case (1 v)
  then show ?case by simp
next
  case (2 v arg rest)
  obtain o1 r1 where s: "parseArg v arg rest = (o1, r1)" by (cases "parseArg v arg rest")
  show ?case
  proof (cases r1)
    case (Inl c)
    with s 2(2) have "c = code" by simp
    with s Inl parseArg_exit_1[of v arg rest o1 c] show ?thesis by simp
  next
    case (Inr p)
    obtain v1 rest1 where p: "p = (v1, rest1)" by (cases p)
    from s Inr p have s': "parseArg v arg rest = (o1, Inr (v1, rest1))" by simp
    obtain o2 r2 where q: "parseArgs v1 rest1 = (o2, r2)" by (cases "parseArgs v1 rest1")
    with s' 2(2) have "r2 = Inl code" by simp
    with q 2(1)[OF s'[symmetric] refl refl] show ?thesis by simp
  qed
qed

lemma parseArgs_first_error:
  assumes "parseArgs v args = (out, Inl code)"
  shows "\<exists>xs arg rest v'. args = xs @ arg # rest \<and> parseArgs v xs = ([], Inr v')
           \<and> parseArg v' arg rest = (out, Inl code)"
  using assms
proof (induction v args arbitrary: out rule: parseArgs.induct)
  case (1 v)
  then show ?case by simp
next
  case (2 v arg rest)
  obtain o1 r1 where s: "parseArg v arg rest = (o1, r1)" by (cases "parseArg v arg rest")
  show ?case
  proof (cases r1)
    case (Inl c)
    with s 2(2) have "parseArg v arg rest = (out, Inl code)" by simp
    moreover have "parseArgs v [] = ([], Inr v)" by simp
    ultimately show ?thesis by (metis append_Nil)
  next
    case (Inr p)
    obtain v1 rest1 where p: "p = (v1, rest1)" by (cases p)
    from s Inr p have s': "parseArg v arg rest = (o1, Inr (v1, rest1))" by simp
    then have o1: "o1 = []" by (rule parseArg_silent)
    obtain o2 r2 where q: "parseArgs v1 rest1 = (o2, r2)" by (cases "parseArgs v1 rest1")
    with s' 2(2) o1 have "parseArgs v1 rest1 = (out, Inl code)" by simp
    from 2(1)[OF s'[symmetric] refl refl this]
    obtain xs a r v' where d: "rest1 = xs @ a # r" and px: "parseArgs v1 xs = ([], Inr v')"
      and e: "parseArg v' a r = (out, Inl code)" by blast
    have "\<exists>cs. arg # rest = cs @ rest1 \<and> parseArgs v cs = ([], Inr v1)"
      using s' o1
      by (cases "switchArg arg"; cases rest)
         (auto simp add: parseArg_def split: option.splits if_splits)
    then obtain cs where c: "arg # rest = cs @ rest1" and pc: "parseArgs v cs = ([], Inr v1)"
      by blast
    from parseArgs_append[OF pc, of xs] px have "parseArgs v (cs @ xs) = ([], Inr v')" by simp
    moreover from c d have "arg # rest = (cs @ xs) @ a # r" by simp
    ultimately show ?thesis using e by blast
  qed
qed

lemma parseArg_error_iff:
  "parseArg v arg rest = (out, Inl code) \<longleftrightarrow>
     code = 1 \<and>
     (switchArg arg = CaseDefault
        \<and> out = [Print Stderr (UnknownOption arg), Print Stdout Usage]
      \<or> rest = [] \<and>
         (switchArg arg = CaseUrl \<and> out = [Print Stdout (NeedsArgument ''-u/--url'')]
          \<or> switchArg arg = CaseUrlEnvName
              \<and> out = [Print Stdout (NeedsArgument ''-U/--url-env-name'')]
          \<or> switchArg arg = CaseAcceptedCodes
              \<and> out = [Print Stdout (NeedsArgument ''-c/--accepted-codes'')]
          \<or> switchArg arg = CaseAcceptedCodesEnvName
              \<and> out = [Print Stdout (NeedsArgument ''-C/--accepted-codes-env-name'')]
          \<or> switchArg arg = CaseTimeout
              \<and> out = [Print Stdout (NeedsArgument ''-t/--timeout'')]
          \<or> switchArg arg = CaseMethod
              \<and> out = [Print Stdout (NeedsArgument ''-m/--method'')]
          \<or> switchArg arg = CaseBodyContains
              \<and> out = [Print Stdout (NeedsArgument ''-b/--body-contains'')]
          \<or> switchArg arg = CaseBodyContainsEnvName
              \<and> out = [Print Stdout (NeedsArgument ''-B/--body-contains-env-name'')])
      \<or> (\<exists>a rest'. rest = a # rest' \<and> switchArg arg = CaseTimeout \<and> Atoi a = None
            \<and> out = [Print Stderr (InvalidTimeout a)])
      \<or> (\<exists>a rest'. rest = a # rest' \<and> switchArg arg = CaseMethod
            \<and> ToUpper a \<noteq> ''GET'' \<and> ToUpper a \<noteq> ''HEAD''
            \<and> out = [Print Stderr InvalidMethod]))"
  by (cases "switchArg arg"; cases rest)
     (auto simp add: parseArg_def printHelp_def split: option.splits if_splits)

lemma parseArgs_error_after:
  assumes "parseArgs vars0 xs = (o1, Inr v)" and "parseArg v arg rest = (out, Inl code)"
  shows "parseArgs vars0 (xs @ arg # rest) = (out, Inl code)"
proof -
  have "parseArgs vars0 (xs @ arg # rest) = parseArgs v (arg # rest)"
    by (rule parseArgs_append[OF assms(1)])
  with assms(2) show ?thesis by simp
qed

lemma parseArg_method:
  "parseArg v arg rest = (out, Inr (v', rest')) \<Longrightarrow>
     httpMethod v = ''GET'' \<or> httpMethod v = ''HEAD'' \<Longrightarrow>
     httpMethod v' = ''GET'' \<or> httpMethod v' = ''HEAD''"
  by (cases "switchArg arg"; cases rest)
     (auto simp add: parseArg_def split: option.splits if_splits)

lemma parseArgs_method:
  assumes "parseArgs vars0 args = (out, Inr v)"
  shows "httpMethod v = ''GET'' \<or> httpMethod v = ''HEAD''"
  by (rule parseArgs_invariant[OF assms, where I = "\<lambda>v. httpMethod v = ''GET'' \<or> httpMethod v = ''HEAD''"])
     (simp add: vars0_def, erule parseArg_method)

lemma parseArg_help:
  "parseArg v arg rest = (out, Inr (v', rest')) \<Longrightarrow> help v \<Longrightarrow> help v'"
  by (cases "switchArg arg"; cases rest)
     (auto simp add: parseArg_def split: option.splits if_splits)

lemma parseArgs_help:
  assumes "parseArgs v args = (out, Inr v')" and "help v"
  shows "help v'"
  by (rule parseArgs_invariant[OF assms(1), where I = "help"]) (rule assms, erule parseArg_help)

subsection \<open>From the configuration to the exit status\<close>

lemma resolveEnv_fields:
  assumes "resolveEnv env v = (out, Inr cfg)"
  shows "httpMethod cfg = httpMethod v" and "url cfg \<noteq> []"
    and "timeoutSeconds cfg = timeoutSeconds v" and "insecureSkipVerify cfg = insecureSkipVerify v"
    and "verbose cfg = verbose v"
  using assms
  by (auto simp: resolveEnv_def resolveUrl_def resolveCodes_def resolveBody_def
           split: if_splits)

lemma configure_Inr:
  assumes "configure env args = (out, Inr (cfg, acm))"
  obtains v out' out'' where "parseArgs vars0 args = ([], Inr v)" and "\<not> help v"
    and "resolveEnv env v = (out', Inr cfg)"
    and "parseAcceptedCodes (acceptedCodesStr cfg) = (out'', Inr acm)"
proof -
  obtain o1 r1 where p: "parseArgs vars0 args = (o1, r1)" by (cases "parseArgs vars0 args")
  with assms obtain v where r1: "r1 = Inr v"
    by (cases r1) (auto simp: configure_def andThen_def)
  from p r1 have o1: "o1 = []" by (simp add: parseArgs_silent)
  from assms p r1 o1 have a: "afterArgs env v = (out, Inr (cfg, acm))"
    by (simp add: configure_def andThen_def split: prod.splits)
  then have nh: "\<not> help v" by (auto simp: afterArgs_def split: if_splits)
  obtain o2 r2 where e: "resolveEnv env v = (o2, r2)" by (cases "resolveEnv env v")
  with a nh obtain cfg' where r2: "r2 = Inr cfg'"
    by (cases r2) (auto simp: afterArgs_def andThen_def)
  obtain o3 r3 where c: "parseAcceptedCodes (acceptedCodesStr cfg') = (o3, r3)"
    by (cases "parseAcceptedCodes (acceptedCodesStr cfg')")
  with a nh e r2 obtain acm' where r3: "r3 = Inr acm'"
    by (cases r3) (auto simp: afterArgs_def andThen_def)
  from a nh e r2 c r3 have "cfg' = cfg" "acm' = acm"
    by (auto simp: afterArgs_def andThen_def)
  with p r1 o1 nh e r2 c r3 that show thesis by blast
qed

lemma configure_method:
  assumes "configure env args = (out, Inr (cfg, acm))"
  shows "httpMethod cfg = ''GET'' \<or> httpMethod cfg = ''HEAD''"
proof -
  from assms obtain v out' where "parseArgs vars0 args = ([], Inr v)"
    and "resolveEnv env v = (out', Inr cfg)"
    by (rule configure_Inr)
  then show ?thesis using parseArgs_method resolveEnv_fields(1) by metis
qed

lemma configure_nonempty:
  assumes "configure env args = (out, Inr c)"
  shows "args \<noteq> []"
proof
  assume "args = []"
  with assms show False
    by (simp add: configure_def andThen_def afterArgs_def vars0_def resolveEnv_def
          resolveUrl_def resolveCodes_def resolveBody_def)
qed

lemma main_configured:
  assumes "configure (environ w) args = (out, Inr c)"
  shows "main w args =
           (out @ fst (probe w c), case snd (probe w c) of Inl code \<Rightarrow> code | Inr u \<Rightarrow> 0)"
  using assms configure_nonempty[OF assms]
  by (simp add: main_def andThen_def split: prod.splits sum.splits)

lemma probe_response:
  assumes "httpMethod cfg = ''GET'' \<or> httpMethod cfg = ''HEAD''"
    and "roundTrip w (httpMethod cfg) (url cfg) (timeoutSeconds cfg) (insecureSkipVerify cfg)
           = Some resp"
  shows "snd (probe w (cfg, acm)) = Inl (snd (evaluate cfg acm resp))"
  using assms by (auto simp: probe_def request_def andThen_def Let_def split: prod.splits)

lemma exitCode_main:
  assumes "configure (environ w) args = (out, Inr (cfg, acm))"
    and "roundTrip w (httpMethod cfg) (url cfg) (timeoutSeconds cfg) (insecureSkipVerify cfg)
           = Some resp"
  shows "exitCode (main w args) = snd (evaluate cfg acm resp)"
  using main_configured[OF assms(1)] probe_response[OF configure_method[OF assms(1)] assms(2)]
  by (simp add: exitCode_def)

lemma main_usage_error:
  assumes "parseArgs vars0 args = (out, Inl code)" and "args \<noteq> []"
  shows "main w args = (out, code)"
  using assms by (simp add: main_def configure_def andThen_def)

lemma main_exit_1:
  assumes "parseArgs vars0 args = (out, Inl code)"
  shows "main w args = (out, 1)"
proof -
  from assms have "args \<noteq> []" by auto
  moreover from assms have "code = 1" by (rule parseArgs_exit_1)
  ultimately show ?thesis using assms by (simp add: main_def configure_def andThen_def)
qed

lemma main_help:
  assumes "parseArgs vars0 xs = (out, Inr v)"
    and "h = ''-h'' \<or> h = ''--help''"
    and "parseArgs vars0 (xs @ h # ys) = (out', Inr v')"
  shows "main w (xs @ h # ys) = ([Print Stdout Usage], 0)"
proof -
  have "parseArgs vars0 (xs @ h # ys) = parseArgs v (h # ys)"
    by (rule parseArgs_append[OF assms(1)])
  also have "\<dots> = parseArgs (v\<lparr>help := True\<rparr>) ys"
    by (rule parseArgs_CaseHelp[OF switchArg_help[OF assms(2)]])
  finally have "parseArgs vars0 (xs @ h # ys) = parseArgs (v\<lparr>help := True\<rparr>) ys" .
  with assms(3) have "parseArgs (v\<lparr>help := True\<rparr>) ys = (out', Inr v')" by simp
  then have "help v'" by (rule parseArgs_help) simp
  moreover from assms(3) have "out' = []" by (rule parseArgs_silent)
  ultimately show ?thesis using assms(3)
    by (simp add: main_def configure_def afterArgs_def andThen_def printHelp_def)
qed


lemma resolveEnv_verbose:
  "snd (resolveEnv env (v\<lparr>verbose := b\<rparr>)) =
     (case snd (resolveEnv env v) of Inl code \<Rightarrow> Inl code | Inr cfg \<Rightarrow> Inr (cfg\<lparr>verbose := b\<rparr>))"
  by (simp add: resolveEnv_def resolveUrl_def resolveCodes_def resolveBody_def)

lemma afterArgs_verbose:
  "snd (afterArgs env (v\<lparr>verbose := b\<rparr>)) =
     (case snd (afterArgs env v) of
        Inl code \<Rightarrow> Inl code
      | Inr (cfg, acm) \<Rightarrow> Inr (cfg\<lparr>verbose := b\<rparr>, acm))"
proof (cases "snd (resolveEnv env v)")
  case (Inl code)
  then show ?thesis
    by (simp add: afterArgs_def snd_andThen resolveEnv_verbose)
next
  case (Inr cfg)
  then have "acceptedCodesStr cfg = acceptedCodesStr (cfg\<lparr>verbose := b\<rparr>)" by simp
  with Inr show ?thesis
    by (simp add: afterArgs_def snd_andThen resolveEnv_verbose split: sum.splits)
qed

lemma probe_verbose: "snd (probe w (cfg\<lparr>verbose := b\<rparr>, acm)) = snd (probe w (cfg, acm))"
  by (simp add: probe_def request_def snd_andThen evaluate_def checkBody_def checkStatus_def
        Let_def split: option.splits prod.splits sum.splits)

lemma exitCode_stages:
  assumes "args \<noteq> []"
  shows "exitCode (main w args) =
     (case snd (parseArgs vars0 args) of
        Inl code \<Rightarrow> code
      | Inr v \<Rightarrow>
          (case snd (afterArgs (environ w) v) of
             Inl code \<Rightarrow> code
           | Inr c \<Rightarrow> (case snd (probe w c) of Inl code \<Rightarrow> code | Inr u \<Rightarrow> 0)))"
proof -
  have "exitCode (main w args) =
          (case snd (andThen (configure (environ w) args) (probe w)) of
             Inl code \<Rightarrow> code | Inr u \<Rightarrow> 0)"
    using assms by (simp add: main_def exitCode_def split: prod.splits sum.splits)
  then show ?thesis
    by (simp add: configure_def snd_andThen split: sum.splits)
qed


subsection \<open>The accepted codes\<close>

lemma parseCodes_silent: "parseCodes m xs = (out, Inr m') \<Longrightarrow> out = []"
  by (induction xs arbitrary: m) (auto split: option.splits)

lemma parseCodes_result:
  "snd (parseCodes m xs) =
     (if \<forall>x\<in>set xs. Atoi (TrimSpace x) \<noteq> None
      then Inr (\<lambda>k. if Some k \<in> (\<lambda>x. Atoi (TrimSpace x)) ` set xs then Some True else m k)
      else Inl 1)"
proof (induction xs arbitrary: m)
  case Nil
  then show ?case by simp
next
  case (Cons x xs)
  show ?case
  proof (cases "Atoi (TrimSpace x)")
    case None
    then show ?thesis by simp
  next
    case (Some code)
    have a: "parseCodes m (x # xs) = parseCodes (m(code \<mapsto> True)) xs"
      using Some by simp
    have b: "(\<forall>y\<in>set (x # xs). Atoi (TrimSpace y) \<noteq> None)
               \<longleftrightarrow> (\<forall>y\<in>set xs. Atoi (TrimSpace y) \<noteq> None)"
      using Some by simp
    have c: "(\<lambda>k. if Some k \<in> (\<lambda>x. Atoi (TrimSpace x)) ` set xs then Some True
               else (m(code \<mapsto> True)) k)
          = (\<lambda>k. if Some k \<in> (\<lambda>x. Atoi (TrimSpace x)) ` set (x # xs) then Some True else m k)"
      using Some by (auto simp: fun_eq_iff)
    show ?thesis by (simp only: a Cons.IH b c)
  qed
qed

lemma parseCodes_lookup:
  assumes "parseCodes Map.empty xs = (out, Inr m)"
  shows "lookup m k \<longleftrightarrow> Some k \<in> (\<lambda>x. Atoi (TrimSpace x)) ` set xs"
proof -
  from assms have "snd (parseCodes Map.empty xs) = Inr m" by simp
  then show ?thesis
    by (auto simp: parseCodes_result lookup_def split: if_splits)
qed

lemma parseAcceptedCodes_Some:
  assumes "parseAcceptedCodes s = (out, Inr (Some m))"
  shows "parseCodes Map.empty (Split s) = ([], Inr m)"
proof -
  obtain o1 r1 where p: "parseCodes Map.empty (Split s) = (o1, r1)"
    by (cases "parseCodes Map.empty (Split s)")
  with assms have "r1 = Inr m"
    by (cases r1) (auto simp: parseAcceptedCodes_def andThen_def split: if_splits)
  with p parseCodes_silent[of Map.empty "Split s" o1 m] show ?thesis by simp
qed

lemma parseAcceptedCodes_silent:
  assumes "parseAcceptedCodes s = (out, Inr acm)"
  shows "out = []"
proof (cases "s = []")
  case True
  with assms show ?thesis by (simp add: parseAcceptedCodes_def)
next
  case False
  obtain o1 r1 where p: "parseCodes Map.empty (Split s) = (o1, r1)"
    by (cases "parseCodes Map.empty (Split s)")
  with assms False obtain m where "r1 = Inr m" and "out = o1"
    by (cases r1) (auto simp: parseAcceptedCodes_def andThen_def)
  with p parseCodes_silent[of Map.empty "Split s" o1 m] show ?thesis by simp
qed

lemma parseAcceptedCodes_result:
  assumes "s \<noteq> []"
  shows "snd (parseAcceptedCodes s) =
     (if \<forall>x\<in>set (Split s). Atoi (TrimSpace x) \<noteq> None
      then Inr (Some (\<lambda>k. if Some k \<in> (\<lambda>x. Atoi (TrimSpace x)) ` set (Split s)
                          then Some True else None))
      else Inl 1)"
  using assms by (simp add: parseAcceptedCodes_def snd_andThen parseCodes_result)

subsection \<open>White space\<close>

lemma rune_nonempty: "w \<in> set spaceRunes \<Longrightarrow> w \<noteq> []"
  by (auto simp: spaceRunes_def)

lemma rune_length:
  "w \<in> set spaceRunes \<Longrightarrow>
     length w = (if (of_char (hd w) :: nat) < 128 then 1
                 else if (of_char (hd w) :: nat) < 224 then 2 else 3)"
  by (auto simp: spaceRunes_def)

lemma rune_head: "w \<in> set spaceRunes \<Longrightarrow> \<not> (128 \<le> (of_char (hd w) :: nat) \<and> (of_char (hd w) :: nat) < 192)"
  by (auto simp: spaceRunes_def)

lemma rune_tail:
  "w \<in> set spaceRunes \<Longrightarrow> c \<in> set (tl w) \<Longrightarrow> 128 \<le> (of_char c :: nat) \<and> (of_char c :: nat) < 192"
  by (auto simp: spaceRunes_def)


lemma find_unique:
  assumes "w \<in> set xs" and "P w" and "\<And>u. u \<in> set xs \<Longrightarrow> P u \<Longrightarrow> u = w"
  shows "List.find P xs = Some w"
proof (cases "List.find P xs")
  case None
  with assms(1,2) show ?thesis by (auto simp: find_None_iff)
next
  case (Some u)
  then have "u \<in> set xs" and "P u" by (auto simp: find_Some_iff)
  with assms(3) Some show ?thesis by simp
qed

lemma HasPrefix_append_self: "HasPrefix (w @ s) w"
  by (simp add: HasPrefix_def)

lemma HasSuffix_append_self: "HasSuffix (s @ w) w"
  by (simp add: HasSuffix_def)

lemma HasPrefix_hd: "HasPrefix s p \<Longrightarrow> p \<noteq> [] \<Longrightarrow> hd s = hd p"
  by (cases s; cases p) (auto simp: HasPrefix_def)

lemma rune_prefix_unique:
  assumes "w \<in> set spaceRunes" and "u \<in> set spaceRunes" and "HasPrefix (w @ s) u"
  shows "u = w"
proof -
  from assms(1,2) have ne: "w \<noteq> []" "u \<noteq> []" by (auto dest: rune_nonempty)
  with assms(3) have "hd u = hd w" by (auto dest: HasPrefix_hd)
  with rune_length[OF assms(1)] rune_length[OF assms(2)] have "length u = length w" by simp
  with assms(3) show ?thesis by (simp add: HasPrefix_def)
qed

lemma find_prefix_rune:
  assumes "w \<in> set spaceRunes"
  shows "List.find (HasPrefix (w @ s)) spaceRunes = Some w"
  using assms HasPrefix_append_self rune_prefix_unique[OF assms]
  by (intro find_unique) auto

lemma nth_tail: "0 < i \<Longrightarrow> i < length u \<Longrightarrow> u ! i \<in> set (tl u)"
  by (cases u) auto

lemma rune_suffix_unique:
  assumes "w \<in> set spaceRunes" and "u \<in> set spaceRunes" and "HasSuffix (s @ w) u"
  shows "u = w"
proof -
  from assms(1,2) have ne: "w \<noteq> []" "u \<noteq> []" by (auto dest: rune_nonempty)
  from assms(3) have le: "length u \<le> length s + length w"
    and d: "drop (length s + length w - length u) (s @ w) = u"
    by (simp_all add: HasSuffix_def)
  consider "length u < length w" | "length w < length u" | "length u = length w" by linarith
  then show ?thesis
  proof cases
    case 1
    with d have "u = drop (length w - length u) w" by simp
    with 1 ne have "hd u = w ! (length w - length u)"
      by (metis diff_less hd_drop_conv_nth length_greater_0_conv)
    moreover from 1 ne have "w ! (length w - length u) \<in> set (tl w)"
      by (intro nth_tail) auto
    ultimately show ?thesis using rune_tail[OF assms(1)] rune_head[OF assms(2)] by metis
  next
    case 2
    let ?k = "length u - length w"
    from d have "drop ?k u = drop ?k (drop (length s + length w - length u) (s @ w))" by simp
    also from 2 le have "\<dots> = w" by simp
    finally have "drop ?k u = w" .
    with 2 ne have "hd w = u ! ?k"
      by (metis diff_less hd_drop_conv_nth length_greater_0_conv)
    moreover from 2 ne have "u ! ?k \<in> set (tl u)"
      by (intro nth_tail) auto
    ultimately show ?thesis using rune_tail[OF assms(2)] rune_head[OF assms(1)] by metis
  next
    case 3
    with d show ?thesis by simp
  qed
qed

lemma find_suffix_rune:
  assumes "w \<in> set spaceRunes"
  shows "List.find (HasSuffix (s @ w)) spaceRunes = Some w"
  using assms HasSuffix_append_self rune_suffix_unique[OF assms]
  by (intro find_unique) auto


lemma leadingSpace_rune: "w \<in> set spaceRunes \<Longrightarrow> leadingSpace (w @ s) = length w"
  by (simp add: leadingSpace_def find_prefix_rune)

lemma trailingSpace_rune: "w \<in> set spaceRunes \<Longrightarrow> trailingSpace (s @ w) = length w"
  by (simp add: trailingSpace_def find_suffix_rune)

lemma TrimLeft_rune:
  assumes "w \<in> set spaceRunes"
  shows "TrimLeft (w @ s) = TrimLeft s"
proof -
  from assms have "w \<noteq> []" by (rule rune_nonempty)
  with leadingSpace_rune[OF assms, of s] show ?thesis
    by (subst TrimLeft.simps) simp
qed

lemma TrimRight_rune:
  assumes "w \<in> set spaceRunes"
  shows "TrimRight (s @ w) = TrimRight s"
proof -
  from assms have "w \<noteq> []" by (rule rune_nonempty)
  with trailingSpace_rune[OF assms, of s] show ?thesis
    by (subst TrimRight.simps) simp
qed

lemma TrimLeft_runes: "set ws \<subseteq> set spaceRunes \<Longrightarrow> TrimLeft (concat ws @ s) = TrimLeft s"
  by (induction ws) (simp_all add: TrimLeft_rune)

lemma TrimRight_runes: "set ws \<subseteq> set spaceRunes \<Longrightarrow> TrimRight (s @ concat ws) = TrimRight s"
proof (induction ws arbitrary: s)
  case Nil
  then show ?case by simp
next
  case (Cons w ws)
  from Cons.prems have ws: "set ws \<subseteq> set spaceRunes" and w: "w \<in> set spaceRunes"
    by simp_all
  from Cons.IH[OF ws, of "s @ w"] have "TrimRight (s @ w @ concat ws) = TrimRight (s @ w)"
    by simp
  with TrimRight_rune[OF w, of s] show ?case by simp
qed

lemma TrimLeft_Nil: "TrimLeft [] = []"
  using leadingSpace_le[of "[]"] by (subst TrimLeft.simps) simp

lemma leadingSpace_0_iff:
  "leadingSpace s = 0 \<longleftrightarrow> (\<forall>u\<in>set spaceRunes. \<not> HasPrefix s u)"
proof (cases "List.find (HasPrefix s) spaceRunes")
  case None
  then have "leadingSpace s = 0" by (simp add: leadingSpace_def)
  moreover from None have "\<forall>u\<in>set spaceRunes. \<not> HasPrefix s u"
    by (auto simp: find_None_iff)
  ultimately show ?thesis by simp
next
  case (Some w)
  then have "w \<in> set spaceRunes" and "HasPrefix s w" by (auto simp: find_Some_iff)
  moreover from Some have "leadingSpace s = length w" by (simp add: leadingSpace_def)
  ultimately show ?thesis using rune_nonempty[of w] by auto
qed

lemma leadingSpace_pos:
  assumes "leadingSpace s \<noteq> 0"
  obtains w where "w \<in> set spaceRunes" and "s = w @ drop (leadingSpace s) s"
    and "leadingSpace s = length w"
proof -
  from assms obtain w where f: "List.find (HasPrefix s) spaceRunes = Some w"
    by (cases "List.find (HasPrefix s) spaceRunes") (auto simp: leadingSpace_def)
  then have w: "w \<in> set spaceRunes" and p: "HasPrefix s w" by (auto simp: find_Some_iff)
  from f have l: "leadingSpace s = length w" by (simp add: leadingSpace_def)
  from p have "s = w @ drop (length w) s"
    by (metis HasPrefix_def append_take_drop_id)
  with w l that show thesis by simp
qed

lemma no_rune_across:
  assumes "e \<noteq> []" and "leadingSpace e = 0" and "set ws \<subseteq> set spaceRunes"
  shows "leadingSpace (e @ concat ws) = 0"
proof (rule ccontr)
  assume "leadingSpace (e @ concat ws) \<noteq> 0"
  then obtain u where u: "u \<in> set spaceRunes" and p: "HasPrefix (e @ concat ws) u"
    by (auto simp: leadingSpace_0_iff)
  from assms(2) u have n: "\<not> HasPrefix e u" by (auto simp: leadingSpace_0_iff)
  from p have le: "length u \<le> length e + length (concat ws)"
    and t: "take (length u) (e @ concat ws) = u"
    by (simp_all add: HasPrefix_def)
  have lt: "length e < length u"
  proof (rule ccontr)
    assume "\<not> length e < length u"
    with t have "HasPrefix e u" by (simp add: HasPrefix_def)
    with n show False ..
  qed
  have "concat ws \<noteq> []"
  proof
    assume "concat ws = []"
    then have "length (concat ws) = 0" by (simp only: list.size)
    with le lt show False by simp
  qed
  then obtain w ws' r where w: "w \<in> set spaceRunes" and c: "concat ws = w @ r"
    using assms(3)
  proof (induction ws)
    case Nil
    then show ?case by simp
  next
    case (Cons a ws)
    then show ?case by (cases "a = []") (auto dest: rune_nonempty)
  qed
  from w have wne: "w \<noteq> []" by (rule rune_nonempty)
  from t lt have "u ! length e = (e @ concat ws) ! length e"
    by (metis nth_take)
  also from c wne have "\<dots> = hd w"
    by (simp add: nth_append hd_conv_nth)
  finally have "hd w = u ! length e" by simp
  moreover from assms(1) lt have "u ! length e \<in> set (tl u)"
    by (intro nth_tail) auto
  ultimately show False using rune_tail[OF u] rune_head[OF w] by metis
qed

lemma TrimLeft_append_runes:
  assumes "set ws \<subseteq> set spaceRunes"
  shows "TrimLeft (e @ concat ws) = (if TrimLeft e = [] then [] else TrimLeft e @ concat ws)"
proof (induction e rule: TrimLeft.induct)
  case (1 e)
  show ?case
  proof (cases "leadingSpace e = 0")
    case True
    then have e: "TrimLeft e = e" by (subst TrimLeft.simps) simp
    show ?thesis
    proof (cases "e = []")
      case True
      with TrimLeft_runes[OF assms, of "[]"] show ?thesis by (simp add: TrimLeft_Nil)
    next
      case False
      from no_rune_across[OF False True assms]
      have "TrimLeft (e @ concat ws) = e @ concat ws" by (subst TrimLeft.simps) simp
      with e False show ?thesis by simp
    qed
  next
    case False
    then obtain w where w: "w \<in> set spaceRunes" and s: "e = w @ drop (leadingSpace e) e"
      and l: "leadingSpace e = length w"
      by (rule leadingSpace_pos)
    from False have a: "TrimLeft e = TrimLeft (drop (leadingSpace e) e)"
      by (subst TrimLeft.simps) simp
    define d where "d = drop (leadingSpace e) e"
    from s have "e = w @ d" by (simp only: d_def)
    then have "TrimLeft (e @ concat ws) = TrimLeft (w @ (d @ concat ws))" by simp
    also have "\<dots> = TrimLeft (d @ concat ws)" by (rule TrimLeft_rune[OF w])
    finally have "TrimLeft (e @ concat ws) = TrimLeft (drop (leadingSpace e) e @ concat ws)"
      by (simp only: d_def)
    with 1[OF False] a show ?thesis by simp
  qed
qed

lemma TrimSpace_padded:
  assumes "set ls \<subseteq> set spaceRunes" and "set rs \<subseteq> set spaceRunes"
  shows "TrimSpace (concat ls @ x @ concat rs) = TrimSpace x"
proof -
  have "TrimLeft (concat ls @ x @ concat rs) = TrimLeft (x @ concat rs)"
    by (rule TrimLeft_runes[OF assms(1)])
  also have "\<dots> = (if TrimLeft x = [] then [] else TrimLeft x @ concat rs)"
    by (rule TrimLeft_append_runes[OF assms(2)])
  finally show ?thesis
    by (simp add: TrimSpace_def TrimRight_runes[OF assms(2)])
qed

lemma Split_no_comma: "CHR '','' \<notin> set x \<Longrightarrow> Split x = [x]"
  by (induction x) auto

lemma Split_comma: "CHR '','' \<notin> set x \<Longrightarrow> Split (x @ CHR '','' # rest) = x # Split rest"
  by (induction x) auto

lemma HasPrefix_iff: "HasPrefix x w \<longleftrightarrow> (\<exists>r. x = w @ r)"
proof
  assume "HasPrefix x w"
  then have "x = w @ drop (length w) x" by (metis HasPrefix_def append_take_drop_id)
  then show "\<exists>r. x = w @ r" ..
next
  assume "\<exists>r. x = w @ r"
  then show "HasPrefix x w" by (auto simp: HasPrefix_def)
qed

lemma HasSuffix_iff: "HasSuffix x w \<longleftrightarrow> (\<exists>r. x = r @ w)"
proof
  assume "HasSuffix x w"
  then have "x = take (length x - length w) x @ w" by (metis HasSuffix_def append_take_drop_id)
  then show "\<exists>r. x = r @ w" ..
next
  assume "\<exists>r. x = r @ w"
  then show "HasSuffix x w" by (auto simp: HasSuffix_def)
qed

lemma trailingSpace_0_iff:
  "trailingSpace s = 0 \<longleftrightarrow> (\<forall>u\<in>set spaceRunes. \<not> HasSuffix s u)"
proof (cases "List.find (HasSuffix s) spaceRunes")
  case None
  then have "trailingSpace s = 0" by (simp add: trailingSpace_def)
  moreover from None have "\<forall>u\<in>set spaceRunes. \<not> HasSuffix s u"
    by (auto simp: find_None_iff)
  ultimately show ?thesis by simp
next
  case (Some w)
  then have "w \<in> set spaceRunes" and "HasSuffix s w" by (auto simp: find_Some_iff)
  moreover from Some have "trailingSpace s = length w" by (simp add: trailingSpace_def)
  ultimately show ?thesis using rune_nonempty[of w] by auto
qed

lemma trailingSpace_pos:
  assumes "trailingSpace s \<noteq> 0"
  obtains w where "w \<in> set spaceRunes" and "s = take (length s - trailingSpace s) s @ w"
    and "trailingSpace s = length w"
proof -
  from assms obtain w where f: "List.find (HasSuffix s) spaceRunes = Some w"
    by (cases "List.find (HasSuffix s) spaceRunes") (auto simp: trailingSpace_def)
  then have w: "w \<in> set spaceRunes" and p: "HasSuffix s w" by (auto simp: find_Some_iff)
  from f have l: "trailingSpace s = length w" by (simp add: trailingSpace_def)
  from p have "s = take (length s - length w) s @ w"
    by (metis HasSuffix_def append_take_drop_id)
  with w l that show thesis by simp
qed

lemma TrimLeft_clean: "leadingSpace (TrimLeft s) = 0"
proof (induction s rule: TrimLeft.induct)
  case (1 s)
  show ?case
  proof (cases "leadingSpace s = 0")
    case True
    then have "TrimLeft s = s" by (subst TrimLeft.simps) simp
    with True show ?thesis by simp
  next
    case False
    then have "TrimLeft s = TrimLeft (drop (leadingSpace s) s)" by (subst TrimLeft.simps) simp
    with 1[OF False] show ?thesis by simp
  qed
qed

lemma TrimRight_clean: "trailingSpace (TrimRight s) = 0"
proof (induction s rule: TrimRight.induct)
  case (1 s)
  show ?case
  proof (cases "trailingSpace s = 0")
    case True
    then have "TrimRight s = s" by (subst TrimRight.simps) simp
    with True show ?thesis by simp
  next
    case False
    then have "TrimRight s = TrimRight (take (length s - trailingSpace s) s)"
      by (subst TrimRight.simps) simp
    with 1[OF False] show ?thesis by simp
  qed
qed

lemma TrimLeft_removed: "\<exists>ls. set ls \<subseteq> set spaceRunes \<and> s = concat ls @ TrimLeft s"
proof (induction s rule: TrimLeft.induct)
  case (1 s)
  show ?case
  proof (cases "leadingSpace s = 0")
    case True
    then have "TrimLeft s = s" by (subst TrimLeft.simps) simp
    then have "set [] \<subseteq> set spaceRunes \<and> s = concat [] @ TrimLeft s" by simp
    then show ?thesis by blast
  next
    case False
    then obtain w where w: "w \<in> set spaceRunes" and s: "s = w @ drop (leadingSpace s) s"
      by (rule leadingSpace_pos)
    from False have a: "TrimLeft s = TrimLeft (drop (leadingSpace s) s)"
      by (subst TrimLeft.simps) simp
    from 1[OF False] obtain ls where ls: "set ls \<subseteq> set spaceRunes"
      and d: "drop (leadingSpace s) s = concat ls @ TrimLeft (drop (leadingSpace s) s)" by blast
    from s d a have "s = concat (w # ls) @ TrimLeft s" by (metis append_assoc concat.simps(2))
    moreover from w ls have "set (w # ls) \<subseteq> set spaceRunes" by simp
    ultimately show ?thesis by blast
  qed
qed

lemma TrimRight_removed: "\<exists>rs. set rs \<subseteq> set spaceRunes \<and> s = TrimRight s @ concat rs"
proof (induction s rule: TrimRight.induct)
  case (1 s)
  show ?case
  proof (cases "trailingSpace s = 0")
    case True
    then have "TrimRight s = s" by (subst TrimRight.simps) simp
    then have "set [] \<subseteq> set spaceRunes \<and> s = TrimRight s @ concat []" by simp
    then show ?thesis by blast
  next
    case False
    let ?t = "take (length s - trailingSpace s) s"
    from False obtain w where w: "w \<in> set spaceRunes" and s: "s = ?t @ w"
      by (rule trailingSpace_pos)
    from False have a: "TrimRight s = TrimRight ?t"
      by (subst TrimRight.simps) simp
    from 1[OF False] obtain rs where rs: "set rs \<subseteq> set spaceRunes"
      and d: "?t = TrimRight ?t @ concat rs" by blast
    have "concat (rs @ [w]) = concat rs @ w" by simp
    with s d a have "s = TrimRight s @ concat (rs @ [w])" by (metis append_assoc)
    moreover from w rs have "set (rs @ [w]) \<subseteq> set spaceRunes" by simp
    ultimately show ?thesis by blast
  qed
qed

lemma TrimSpace_removed:
  "\<exists>ls rs. set ls \<subseteq> set spaceRunes \<and> set rs \<subseteq> set spaceRunes
     \<and> s = concat ls @ TrimSpace s @ concat rs"
proof -
  obtain ls where ls: "set ls \<subseteq> set spaceRunes" and l: "s = concat ls @ TrimLeft s"
    using TrimLeft_removed by blast
  obtain rs where rs: "set rs \<subseteq> set spaceRunes"
    and r: "TrimLeft s = TrimRight (TrimLeft s) @ concat rs"
    using TrimRight_removed by blast
  from l r have "s = concat ls @ TrimSpace s @ concat rs"
    by (metis TrimSpace_def append_assoc)
  with ls rs show ?thesis by blast
qed

lemma TrimSpace_clean:
  assumes "w \<in> set spaceRunes"
  shows "TrimSpace s \<noteq> w @ r" and "TrimSpace s \<noteq> r @ w"
proof -
  have "trailingSpace (TrimSpace s) = 0" by (simp add: TrimSpace_def TrimRight_clean)
  with assms have "\<not> HasSuffix (TrimSpace s) w" by (simp add: trailingSpace_0_iff)
  then show "TrimSpace s \<noteq> r @ w" by (auto simp: HasSuffix_iff)
  obtain rs where t: "TrimLeft s = TrimSpace s @ concat rs"
    using TrimRight_removed[of "TrimLeft s"] by (auto simp: TrimSpace_def)
  have "leadingSpace (TrimLeft s) = 0" by (rule TrimLeft_clean)
  with assms have n: "\<not> HasPrefix (TrimLeft s) w" by (simp add: leadingSpace_0_iff)
  show "TrimSpace s \<noteq> w @ r"
  proof
    assume "TrimSpace s = w @ r"
    with t have "TrimLeft s = w @ (r @ concat rs)" by simp
    then have "HasPrefix (TrimLeft s) w" by (auto simp: HasPrefix_iff)
    with n show False ..
  qed
qed

lemma TrimSpace_clean_id:
  assumes "\<forall>w\<in>set spaceRunes. \<forall>r. x \<noteq> w @ r \<and> x \<noteq> r @ w"
  shows "TrimSpace x = x"
proof -
  from assms have "leadingSpace x = 0" by (auto simp: leadingSpace_0_iff HasPrefix_iff)
  then have l: "TrimLeft x = x" by (subst TrimLeft.simps) simp
  from assms have "trailingSpace x = 0" by (auto simp: trailingSpace_0_iff HasSuffix_iff)
  then have "TrimRight x = x" by (subst TrimRight.simps) simp
  with l show ?thesis by (simp add: TrimSpace_def)
qed

lemma isDigit_iff: "isDigit c \<longleftrightarrow> c \<in> set ''0123456789''"
proof
  assume "c \<in> set ''0123456789''"
  then show "isDigit c" by (auto simp: isDigit_def)
next
  assume d: "isDigit c"
  define n :: nat where "n = of_char c"
  have c: "c = char_of n" by (simp add: n_def)
  from d have "48 \<le> n" and "n \<le> 57" by (simp_all add: isDigit_def n_def)
  then have "n = 48 \<or> n = 49 \<or> n = 50 \<or> n = 51 \<or> n = 52 \<or> n = 53 \<or> n = 54 \<or> n = 55
               \<or> n = 56 \<or> n = 57" by arith
  then show "c \<in> set ''0123456789''"
    unfolding c by (elim disjE; simp add: char_of_def bit_Suc_0_iff)
qed

lemma parseDigits_digits:
  "\<forall>c\<in>set ds. isDigit c \<Longrightarrow>
     parseDigits n ds = Some (foldl (\<lambda>n c. n * 10 + (of_char c - 48)) n ds)"
  by (induction ds arbitrary: n) simp_all

lemma parseDigits_Some: "parseDigits n ds = Some m \<Longrightarrow> \<forall>c\<in>set ds. isDigit c"
  by (induction ds arbitrary: n) (auto split: if_splits)

lemma Atoi_digits:
  assumes "ds \<noteq> []" and "\<forall>c\<in>set ds. c \<in> set ''0123456789''"
  shows "Atoi ds =
           (if int (foldl (\<lambda>n c. n * 10 + (of_char c - 48)) 0 ds) < 2 ^ 63
            then Some (int (foldl (\<lambda>n c. n * 10 + (of_char c - 48)) 0 ds)) else None)"
    and "Atoi (CHR ''+'' # ds) =
           (if int (foldl (\<lambda>n c. n * 10 + (of_char c - 48)) 0 ds) < 2 ^ 63
            then Some (int (foldl (\<lambda>n c. n * 10 + (of_char c - 48)) 0 ds)) else None)"
    and "Atoi (CHR ''-'' # ds) =
           (if int (foldl (\<lambda>n c. n * 10 + (of_char c - 48)) 0 ds) \<le> 2 ^ 63
            then Some (- int (foldl (\<lambda>n c. n * 10 + (of_char c - 48)) 0 ds)) else None)"
proof -
  from assms(2) have d: "\<forall>c\<in>set ds. isDigit c" by (simp add: isDigit_iff)
  note p = parseDigits_digits[OF d, of 0]
  obtain c cs where ds: "ds = c # cs" using assms(1) by (cases ds) auto
  with assms(2) have "c \<noteq> CHR ''-''" and "c \<noteq> CHR ''+''" by auto
  with ds p show "Atoi ds =
           (if int (foldl (\<lambda>n c. n * 10 + (of_char c - 48)) 0 ds) < 2 ^ 63
            then Some (int (foldl (\<lambda>n c. n * 10 + (of_char c - 48)) 0 ds)) else None)"
    by (simp add: Atoi_def Let_def)
  from assms(1) p show "Atoi (CHR ''+'' # ds) =
           (if int (foldl (\<lambda>n c. n * 10 + (of_char c - 48)) 0 ds) < 2 ^ 63
            then Some (int (foldl (\<lambda>n c. n * 10 + (of_char c - 48)) 0 ds)) else None)"
    by (simp add: Atoi_def Let_def)
  from assms(1) p show "Atoi (CHR ''-'' # ds) =
           (if int (foldl (\<lambda>n c. n * 10 + (of_char c - 48)) 0 ds) \<le> 2 ^ 63
            then Some (- int (foldl (\<lambda>n c. n * 10 + (of_char c - 48)) 0 ds)) else None)"
    by (simp add: Atoi_def Let_def)
qed

lemma Atoi_Some:
  assumes "Atoi s = Some i"
  shows "\<exists>ds. ds \<noteq> [] \<and> (\<forall>c\<in>set ds. c \<in> set ''0123456789'')
           \<and> (s = ds \<or> s = CHR ''+'' # ds \<or> s = CHR ''-'' # ds)"
proof -
  from assms obtain c cs where s: "s = c # cs" by (cases s) (auto simp: Atoi_def)
  let ?ds = "if c = CHR ''-'' \<or> c = CHR ''+'' then cs else s"
  from assms s have ne: "?ds \<noteq> []"
    by (auto simp: Atoi_def Let_def split: if_splits)
  from assms s obtain n where "parseDigits 0 ?ds = Some n"
    by (auto simp: Atoi_def Let_def split: if_splits option.splits)
  then have "\<forall>c\<in>set ?ds. isDigit c" by (rule parseDigits_Some)
  then have d: "\<forall>c\<in>set ?ds. c \<in> set ''0123456789''" by (simp only: isDigit_iff)
  from s have "s = ?ds \<or> s = CHR ''+'' # ?ds \<or> s = CHR ''-'' # ?ds" by auto
  with ne d show ?thesis by blast
qed

lemma parseAcceptedCodes_ok:
  assumes "s \<noteq> []" and "\<forall>x\<in>set (Split s). Atoi (TrimSpace x) \<noteq> None"
  shows "parseAcceptedCodes s =
           ([], Inr (Some (\<lambda>k. if Some k \<in> (\<lambda>x. Atoi (TrimSpace x)) ` set (Split s)
                                then Some True else None)))"
proof -
  obtain out r where p: "parseAcceptedCodes s = (out, r)" by (cases "parseAcceptedCodes s")
  with assms(2) parseAcceptedCodes_result[OF assms(1)]
  have r: "r = Inr (Some (\<lambda>k. if Some k \<in> (\<lambda>x. Atoi (TrimSpace x)) ` set (Split s)
                                then Some True else None))"
    by (auto split: if_splits)
  with p have "out = []" by (simp add: parseAcceptedCodes_silent)
  with p r show ?thesis by simp
qed

lemma parseAcceptedCodes_same:
  assumes "s \<noteq> []" and "t \<noteq> []"
    and e: "TrimSpace ` set (Split t) = TrimSpace ` set (Split s)"
  shows "snd (parseAcceptedCodes t) = snd (parseAcceptedCodes s)"
proof -
  have i: "(\<lambda>x. Atoi (TrimSpace x)) ` set xs = Atoi ` TrimSpace ` set xs" for xs
    by (simp add: image_image)
  have a: "(\<forall>x\<in>set xs. Atoi (TrimSpace x) \<noteq> None) \<longleftrightarrow> None \<notin> Atoi ` TrimSpace ` set xs" for xs
    by force
  show ?thesis
    by (simp only: parseAcceptedCodes_result[OF assms(1)] parseAcceptedCodes_result[OF assms(2)]
          i a e)
qed

lemma clean_evalI:
  assumes "\<forall>w\<in>set spaceRunes. \<not> HasPrefix x w \<and> \<not> HasSuffix x w"
  shows "\<forall>w\<in>set spaceRunes. \<forall>r. x \<noteq> w @ r \<and> x \<noteq> r @ w"
  using assms by (auto simp: HasPrefix_iff HasSuffix_iff)

subsection \<open>What a configuration has written\<close>

lemma resolveEnv_prints:
  assumes "resolveEnv env v = (out, r)" and "e \<in> set out"
  shows "\<exists>str msg. e = Print str msg"
  using assms
  by (auto simp: resolveEnv_def resolveUrl_def resolveCodes_def resolveBody_def say_def
           printHelp_def split: if_splits)

lemma configure_trace:
  assumes "configure env args = (out, Inr (cfg, acm))"
  obtains v where "parseArgs vars0 args = ([], Inr v)" and "\<not> help v"
    and "resolveEnv env v = (out, Inr cfg)"
    and "parseAcceptedCodes (acceptedCodesStr cfg) = ([], Inr acm)"
proof -
  from assms obtain v out' out'' where p: "parseArgs vars0 args = ([], Inr v)" and h: "\<not> help v"
    and e: "resolveEnv env v = (out', Inr cfg)"
    and c: "parseAcceptedCodes (acceptedCodesStr cfg) = (out'', Inr acm)"
    by (rule configure_Inr)
  from c have o: "out'' = []" by (rule parseAcceptedCodes_silent)
  from assms p h e c o have "out = out'"
    by (simp add: configure_def afterArgs_def andThen_def)
  with p h e c o that show thesis by simp
qed

lemma configure_prints:
  assumes "configure env args = (out, Inr (cfg, acm))" and "e \<in> set out"
  shows "\<exists>str msg. e = Print str msg"
proof -
  from assms(1) obtain v where "resolveEnv env v = (out, Inr cfg)"
    by (rule configure_trace)
  from resolveEnv_prints[OF this assms(2)] show ?thesis .
qed

lemma configureI:
  assumes "parseArgs vars0 args = (out, Inr v)" and "\<not> help v"
    and "resolveEnv env v = (out', Inr cfg)"
    and "parseAcceptedCodes (acceptedCodesStr cfg) = (out'', Inr acm)"
  shows "configure env args = (out', Inr (cfg, acm))"
proof -
  from assms(1) have "out = []" by (rule parseArgs_silent)
  moreover from assms(4) have "out'' = []" by (rule parseAcceptedCodes_silent)
  ultimately show ?thesis using assms
    by (simp add: configure_def afterArgs_def andThen_def)
qed

lemmas configure_defs = configure_def afterArgs_def andThen_def vars0_def switchArg_def
  parseArg_def resolveEnv_def resolveUrl_def resolveCodes_def resolveBody_def
  parseAcceptedCodes_def say_def Getenv_def envOf_def printHelp_def

lemmas string_defs = Atoi_def isDigit_def TrimSpace_def leadingSpace_def trailingSpace_def
  spaceRunes_def HasPrefix_def HasSuffix_def ToUpper_def toUpperByte_def char_of_def
  bit_Suc_0_iff TrimLeft.simps TrimRight.simps

lemmas main_defs = main_def probe_def request_def evaluate_def checkBody_def checkStatus_def
  serves_def exitCode_def trace_def lookup_def

subsection \<open>The verdict\<close>

text \<open>
  C1. When a non-empty body substring is configured and the method is GET, a response
  whose body does not contain the substring makes the process exit with status 1,
  whether or not accepted codes are configured and whatever the status code is: the
  theorem holds for every \<open>acceptedCodeMap\<close> and every \<open>status\<close>.
\<close>

theorem body_veto_exit_1:
  assumes "configure (environ w) args = (out, Inr (cfg, acceptedCodeMap))"
    and "bodyContains cfg \<noteq> []" and "httpMethod cfg = ''GET''"
    and "roundTrip w ''GET'' (url cfg) (timeoutSeconds cfg) (insecureSkipVerify cfg)
           = Some (Response status (Some body))"
    and "\<not> Contains body (bodyContains cfg)"
  shows "exitCode (main w args) = 1"
proof -
  from assms(3,4)
  have "roundTrip w (httpMethod cfg) (url cfg) (timeoutSeconds cfg) (insecureSkipVerify cfg)
           = Some (Response status (Some body))" by simp
  from exitCode_main[OF assms(1) this] assms(2,3,5) show ?thesis
    by (simp add: evaluate_def checkBody_def checkStatus_def split: prod.splits)
qed

theorem body_veto_exit_1_witness:
  "\<not> Contains ''ERROR'' ''OK''
   \<and> exitCode (main (serves 200 ''ERROR'' (envOf []))
                  [''-u'', ''http://h'', ''-c'', ''200'', ''-b'', ''OK'']) = 1"
proof -
  let ?w = "serves 200 ''ERROR'' (envOf [])"
  let ?args = "[''-u'', ''http://h'', ''-c'', ''200'', ''-b'', ''OK'']"
  let ?cfg = "vars0\<lparr>url := ''http://h'', acceptedCodesStr := ''200'', bodyContains := ''OK''\<rparr>"
  have c: "configure (environ ?w) ?args = ([], Inr (?cfg, Some [200 \<mapsto> True]))"
    by (simp add: configure_defs string_defs serves_def)
  have b: "bodyContains ?cfg \<noteq> []" by simp
  have m: "httpMethod ?cfg = ''GET''" by (simp add: vars0_def)
  have r: "roundTrip ?w ''GET'' (url ?cfg) (timeoutSeconds ?cfg) (insecureSkipVerify ?cfg)
             = Some (Response 200 (Some ''ERROR''))"
    by (simp add: serves_def)
  have n: "\<not> Contains ''ERROR'' (bodyContains ?cfg)" by (simp add: HasPrefix_def)
  from body_veto_exit_1[OF c b m r n] n show ?thesis by simp
qed

text \<open>
  C2. When accepted codes are configured and the body check passes or is not made, the
  process exits with status 0 if the status code of the response is one of the parsed
  codes and with status 1 otherwise, for every integer status code.
\<close>

theorem status_code_decides:
  assumes "configure (environ w) args = (out, Inr (cfg, Some m))"
    and "roundTrip w (httpMethod cfg) (url cfg) (timeoutSeconds cfg) (insecureSkipVerify cfg)
           = Some resp"
    and "bodyContains cfg = [] \<or> httpMethod cfg \<noteq> ''GET''
           \<or> (\<exists>body. Body resp = Some body \<and> Contains body (bodyContains cfg))"
  shows "(lookup m (StatusCode resp) \<longleftrightarrow>
            Some (StatusCode resp) \<in> (\<lambda>x. Atoi (TrimSpace x)) ` set (Split (acceptedCodesStr cfg)))
         \<and> exitCode (main w args) = (if lookup m (StatusCode resp) then 0 else 1)"
proof
  from assms(1) obtain out'' where "parseAcceptedCodes (acceptedCodesStr cfg) = (out'', Inr (Some m))"
    by (rule configure_Inr)
  then have "parseCodes Map.empty (Split (acceptedCodesStr cfg)) = ([], Inr m)"
    by (rule parseAcceptedCodes_Some)
  then show "lookup m (StatusCode resp) \<longleftrightarrow>
            Some (StatusCode resp) \<in> (\<lambda>x. Atoi (TrimSpace x)) ` set (Split (acceptedCodesStr cfg))"
    by (rule parseCodes_lookup)
next
  from exitCode_main[OF assms(1,2)] assms(3)
  show "exitCode (main w args) = (if lookup m (StatusCode resp) then 0 else 1)"
    by (auto simp: evaluate_def checkBody_def checkStatus_def split: prod.splits)
qed


theorem status_code_decides_witness:
  "exitCode (main (serves 404 ''gone'' (envOf [])) [''-u'', ''http://h'', ''-c'', ''200, 404'']) = 0
   \<and> exitCode (main (serves 500 ''down'' (envOf [])) [''-u'', ''http://h'', ''-c'', ''200, 404'']) = 1"
proof -
  let ?w = "serves 404 ''gone'' (envOf [])"
  let ?w' = "serves 500 ''down'' (envOf [])"
  let ?args = "[''-u'', ''http://h'', ''-c'', ''200, 404'']"
  let ?cfg = "vars0\<lparr>url := ''http://h'', acceptedCodesStr := ''200, 404''\<rparr>"
  let ?m = "[200 \<mapsto> True, 404 \<mapsto> True] :: codemap"
  have c: "configure (environ ?w) ?args = ([], Inr (?cfg, Some ?m))"
    by (simp add: configure_defs string_defs serves_def)
  have c': "configure (environ ?w') ?args = ([], Inr (?cfg, Some ?m))"
    by (simp add: configure_defs string_defs serves_def)
  have r: "roundTrip ?w (httpMethod ?cfg) (url ?cfg) (timeoutSeconds ?cfg) (insecureSkipVerify ?cfg)
             = Some (Response 404 (Some ''gone''))"
    by (simp add: serves_def)
  have r': "roundTrip ?w' (httpMethod ?cfg) (url ?cfg) (timeoutSeconds ?cfg) (insecureSkipVerify ?cfg)
             = Some (Response 500 (Some ''down''))"
    by (simp add: serves_def)
  have g: "bodyContains ?cfg = [] \<or> httpMethod ?cfg \<noteq> ''GET''
             \<or> (\<exists>body. Body (Response 404 (Some ''gone'')) = Some body
                    \<and> Contains body (bodyContains ?cfg))"
    by (simp add: vars0_def)
  have g': "bodyContains ?cfg = [] \<or> httpMethod ?cfg \<noteq> ''GET''
             \<or> (\<exists>body. Body (Response 500 (Some ''down'')) = Some body
                    \<and> Contains body (bodyContains ?cfg))"
    by (simp add: vars0_def)
  from status_code_decides[OF c r g] status_code_decides[OF c' r' g'] show ?thesis by (simp add: lookup_def)
qed

text \<open>
  C3. When neither accepted codes nor a body substring are configured and the transport
  call succeeds, the process exits with status 0 whatever the status code of the
  response is.
\<close>

theorem no_criteria_exit_0:
  assumes "configure (environ w) args = (out, Inr (cfg, None))"
    and "bodyContains cfg = []"
    and "roundTrip w (httpMethod cfg) (url cfg) (timeoutSeconds cfg) (insecureSkipVerify cfg)
           = Some resp"
  shows "exitCode (main w args) = 0"
  using exitCode_main[OF assms(1,3)] assms(2)
  by (simp add: evaluate_def checkBody_def checkStatus_def split: prod.splits)

theorem no_criteria_exit_0_witness:
  "configure (environ (serves 500 ''down'' (envOf []))) [''-u'', ''http://h'']
     = ([], Inr (vars0\<lparr>url := ''http://h''\<rparr>, None))
   \<and> exitCode (main (serves 500 ''down'' (envOf [])) [''-u'', ''http://h'']) = 0"
proof -
  let ?w = "serves 500 ''down'' (envOf [])"
  let ?cfg = "vars0\<lparr>url := ''http://h''\<rparr>"
  have c: "configure (environ ?w) [''-u'', ''http://h''] = ([], Inr (?cfg, None))"
    by (simp add: configure_defs serves_def)
  have b: "bodyContains ?cfg = []"
    by (simp add: vars0_def)
  have r: "roundTrip ?w (httpMethod ?cfg) (url ?cfg) (timeoutSeconds ?cfg)
             (insecureSkipVerify ?cfg) = Some (Response 500 (Some ''down''))"
    by (simp add: serves_def)
  from no_criteria_exit_0[OF c b r] c show ?thesis by simp
qed

text \<open>
  C9. When a non-empty body substring is configured but the method is HEAD, the body of
  the response is not read and the body check counts as passed: the accepted codes
  decide the exit status when they are configured, and it is 0 when they are not.
\<close>

theorem head_skips_body_check:
  assumes "configure (environ w) args = (out, Inr (cfg, acceptedCodeMap))"
    and "bodyContains cfg \<noteq> []" and "httpMethod cfg = ''HEAD''"
    and "roundTrip w ''HEAD'' (url cfg) (timeoutSeconds cfg) (insecureSkipVerify cfg) = Some resp"
  shows "ReadBody \<notin> set (trace (main w args))
         \<and> exitCode (main w args) =
             (case acceptedCodeMap of
                None \<Rightarrow> 0
              | Some m \<Rightarrow> if lookup m (StatusCode resp) then 0 else 1)"
proof
  have "ReadBody \<notin> set out"
    using configure_prints[OF assms(1)] by blast
  moreover have "ReadBody \<notin> set (fst (probe w (cfg, acceptedCodeMap)))"
    using assms(2,3,4)
    by (auto simp: probe_def request_def andThen_def evaluate_def checkBody_def checkStatus_def
          say_def Let_def split: prod.splits option.splits)
  ultimately show "ReadBody \<notin> set (trace (main w args))"
    by (simp add: main_configured[OF assms(1)] trace_def)
next
  from assms(3,4)
  have "roundTrip w (httpMethod cfg) (url cfg) (timeoutSeconds cfg) (insecureSkipVerify cfg)
           = Some resp" by simp
  from exitCode_main[OF assms(1) this] assms(2,3)
  show "exitCode (main w args) =
             (case acceptedCodeMap of
                None \<Rightarrow> 0
              | Some m \<Rightarrow> if lookup m (StatusCode resp) then 0 else 1)"
    by (simp add: evaluate_def checkBody_def checkStatus_def split: prod.splits option.splits)
qed

theorem head_skips_body_check_witness:
  "exitCode (main (serves 200 ''ERROR'' (envOf []))
      [''-u'', ''http://h'', ''-m'', ''head'', ''-b'', ''OK'', ''-c'', ''200'']) = 0
   \<and> ReadBody \<notin> set (trace (main (serves 200 ''ERROR'' (envOf []))
      [''-u'', ''http://h'', ''-m'', ''head'', ''-b'', ''OK'', ''-c'', ''200'']))"
proof -
  let ?w = "serves 200 ''ERROR'' (envOf [])"
  let ?args = "[''-u'', ''http://h'', ''-m'', ''head'', ''-b'', ''OK'', ''-c'', ''200'']"
  let ?cfg = "vars0\<lparr>url := ''http://h'', httpMethod := ''HEAD'', bodyContains := ''OK'',
                 acceptedCodesStr := ''200''\<rparr>"
  have c: "configure (environ ?w) ?args = ([], Inr (?cfg, Some [200 \<mapsto> True]))"
    by (simp add: configure_defs string_defs serves_def)
  have b: "bodyContains ?cfg \<noteq> []" by simp
  have m: "httpMethod ?cfg = ''HEAD''" by simp
  have r: "roundTrip ?w ''HEAD'' (url ?cfg) (timeoutSeconds ?cfg) (insecureSkipVerify ?cfg)
             = Some (Response 200 (Some ''ERROR''))"
    by (simp add: serves_def)
  from head_skips_body_check[OF c b m r] show ?thesis by (simp add: lookup_def)
qed

text \<open>
  C10, as the claim states it, fails: it is not the presence of \<^verbatim>\<open>-B\<close> that keeps the
  variable named by \<^verbatim>\<open>-C\<close> from being read, but a name that is not empty. With
  \<^verbatim>\<open>-C CODES -B ""\<close> no variable gives a body substring, \<^verbatim>\<open>CODES\<close> is read and a
  status code that is not in it gives exit status 1; with a name that is not empty the
  same run exits with status 0.
\<close>

theorem empty_body_name_consults_codes_env:
  "Getenv (envOf [(''CODES'', ''404'')]) '''' = ''''
   \<and> exitCode (main (serves 200 ''OK'' (envOf [(''CODES'', ''404'')]))
        [''-u'', ''http://h'', ''-C'', ''CODES'', ''-B'', '''']) = 1
   \<and> exitCode (main (serves 200 ''OK'' (envOf [(''CODES'', ''404'')]))
        [''-u'', ''http://h'', ''-C'', ''CODES'', ''-B'', ''UNSET'']) = 0"
  by (simp add: main_defs configure_defs string_defs)

text \<open>
  C10, amended. When \<^verbatim>\<open>-B\<close> gives a name that is not empty, of an environment
  variable that is unset or empty, the body substring is empty and the body check is
  off, but the name still keeps the variable named by \<^verbatim>\<open>-C\<close> from being read (the
  theorem holds whatever \<^verbatim>\<open>-C\<close> names): without a \<^verbatim>\<open>-c\<close> value no codes are
  configured and the process exits with status 0 for every response received.
\<close>

theorem unset_body_variable_exit_0:
  assumes "parseArgs vars0 args = (out, Inr v)" and "\<not> help v"
    and "bodyContainsEnvName v \<noteq> []"
    and "Getenv (environ w) (bodyContainsEnvName v) = []"
    and "acceptedCodesStr v = []"
    and "resolveEnv (environ w) v = (out', Inr cfg)"
    and "roundTrip w (httpMethod cfg) (url cfg) (timeoutSeconds cfg) (insecureSkipVerify cfg)
           = Some resp"
  shows "bodyContains cfg = [] \<and> acceptedCodesStr cfg = []
         \<and> configure (environ w) args = (out', Inr (cfg, None))
         \<and> exitCode (main w args) = 0"
proof -
  from assms(3,4,5,6) have b: "bodyContains cfg = []" and c: "acceptedCodesStr cfg = []"
    by (auto simp: resolveEnv_def resolveUrl_def resolveCodes_def resolveBody_def
             split: if_splits)
  from c have "parseAcceptedCodes (acceptedCodesStr cfg) = ([], Inr None)"
    by (simp add: parseAcceptedCodes_def)
  from configureI[OF assms(1,2,6) this]
  have d: "configure (environ w) args = (out', Inr (cfg, None))" .
  from exitCode_main[OF d assms(7)] b have "exitCode (main w args) = 0"
    by (simp add: evaluate_def checkBody_def checkStatus_def split: prod.splits)
  with b c d show ?thesis by simp
qed


theorem unset_body_variable_exit_0_witness:
  "exitCode (main (serves 500 ''down'' (envOf [(''CODES'', ''200'')]))
      [''-u'', ''http://h'', ''-C'', ''CODES'', ''-B'', ''BODY'']) = 0"
proof -
  let ?w = "serves 500 ''down'' (envOf [(''CODES'', ''200'')])"
  let ?args = "[''-u'', ''http://h'', ''-C'', ''CODES'', ''-B'', ''BODY'']"
  let ?v = "vars0\<lparr>url := ''http://h'', acceptedCodesEnvName := ''CODES'',
               bodyContainsEnvName := ''BODY''\<rparr>"
  have p: "parseArgs vars0 ?args = ([], Inr ?v)"
    by (simp add: switchArg_def parseArg_def)
  have h: "\<not> help ?v" by (simp add: vars0_def)
  have n: "bodyContainsEnvName ?v \<noteq> []" by simp
  have g: "Getenv (environ ?w) (bodyContainsEnvName ?v) = []"
    by (simp add: Getenv_def serves_def envOf_def)
  have a: "acceptedCodesStr ?v = []" by (simp add: vars0_def)
  have e: "resolveEnv (environ ?w) ?v = ([], Inr (?v\<lparr>bodyContains := []\<rparr>))"
    by (simp add: configure_defs serves_def)
  have r: "roundTrip ?w (httpMethod (?v\<lparr>bodyContains := []\<rparr>)) (url (?v\<lparr>bodyContains := []\<rparr>))
             (timeoutSeconds (?v\<lparr>bodyContains := []\<rparr>))
             (insecureSkipVerify (?v\<lparr>bodyContains := []\<rparr>)) = Some (Response 500 (Some ''down''))"
    by (simp add: serves_def)
  from unset_body_variable_exit_0[OF p h n g a e r] show ?thesis by simp
qed

subsection \<open>The arguments and the environment\<close>




text \<open>
  C5, as the claim states it, fails: the help is given after the argument loop, so a
  usage error anywhere in the argument list wins over \<^verbatim>\<open>-h\<close>.
\<close>

theorem help_after_usage_error_exit_1:
  "main (serves 200 ''OK'' (envOf [])) [''-h'', ''-z'']
     = ([Print Stderr (UnknownOption ''-z''), Print Stdout Usage], 1)"
  by (simp add: main_defs configure_defs)

text \<open>
  C5, amended. When the whole argument list parses and \<^verbatim>\<open>-h\<close> or \<^verbatim>\<open>--help\<close> stands
  where an option is read (after arguments that parse), the program prints the usage
  text, and nothing else, and exits with status 0: no request is issued, whatever the
  other options are. When the argument loop stops instead, it has met a usage error
  after arguments that parse: an unknown option (an argument that is none of the
  twenty-two option names), an option without the value it needs, a timeout that is not
  an integer or a method other than GET and HEAD. Then the program writes the
  diagnostic of that first error (and after it the usage text when the option is
  unknown), and nothing else, and exits with status 1, whether \<^verbatim>\<open>-h\<close> stands in
  the list or not.
\<close>

theorem help_flag_exit_0:
  "(parseArgs vars0 xs = (o1, Inr v) \<and> (h = ''-h'' \<or> h = ''--help'')
      \<and> parseArgs vars0 (xs @ h # ys) = (o2, Inr v')
    \<longrightarrow> main w (xs @ h # ys) = ([Print Stdout Usage], 0))
   \<and> (parseArgs vars0 args = (out, Inl code) \<longrightarrow> main w args = (out, 1))
   \<and> (parseArgs vars0 xs = (o1, Inr v) \<and> parseArg v arg rest = (out, Inl code)
        \<longrightarrow> main w (xs @ arg # rest) = (out, 1))
   \<and> (parseArg v arg rest = (out, Inl code) \<longleftrightarrow>
     code = 1 \<and>
     (switchArg arg = CaseDefault
        \<and> out = [Print Stderr (UnknownOption arg), Print Stdout Usage]
      \<or> rest = [] \<and>
         (switchArg arg = CaseUrl \<and> out = [Print Stdout (NeedsArgument ''-u/--url'')]
          \<or> switchArg arg = CaseUrlEnvName
              \<and> out = [Print Stdout (NeedsArgument ''-U/--url-env-name'')]
          \<or> switchArg arg = CaseAcceptedCodes
              \<and> out = [Print Stdout (NeedsArgument ''-c/--accepted-codes'')]
          \<or> switchArg arg = CaseAcceptedCodesEnvName
              \<and> out = [Print Stdout (NeedsArgument ''-C/--accepted-codes-env-name'')]
          \<or> switchArg arg = CaseTimeout
              \<and> out = [Print Stdout (NeedsArgument ''-t/--timeout'')]
          \<or> switchArg arg = CaseMethod
              \<and> out = [Print Stdout (NeedsArgument ''-m/--method'')]
          \<or> switchArg arg = CaseBodyContains
              \<and> out = [Print Stdout (NeedsArgument ''-b/--body-contains'')]
          \<or> switchArg arg = CaseBodyContainsEnvName
              \<and> out = [Print Stdout (NeedsArgument ''-B/--body-contains-env-name'')])
      \<or> (\<exists>a rest'. rest = a # rest' \<and> switchArg arg = CaseTimeout \<and> Atoi a = None
            \<and> out = [Print Stderr (InvalidTimeout a)])
      \<or> (\<exists>a rest'. rest = a # rest' \<and> switchArg arg = CaseMethod
            \<and> ToUpper a \<noteq> ''GET'' \<and> ToUpper a \<noteq> ''HEAD''
            \<and> out = [Print Stderr InvalidMethod])))
   \<and> (parseArgs vars0 args = (out, Inl code) \<longrightarrow>
        (\<exists>pre a post u. args = pre @ a # post \<and> parseArgs vars0 pre = ([], Inr u)
           \<and> parseArg u a post = (out, Inl code)))
   \<and> (switchArg arg = CaseUrl \<longleftrightarrow> arg = ''-u'' \<or> arg = ''--url'')
   \<and> (switchArg arg = CaseUrlEnvName \<longleftrightarrow> arg = ''-U'' \<or> arg = ''--url-env-name'')
   \<and> (switchArg arg = CaseAcceptedCodes \<longleftrightarrow> arg = ''-c'' \<or> arg = ''--accepted-codes'')
   \<and> (switchArg arg = CaseAcceptedCodesEnvName \<longleftrightarrow>
          arg = ''-C'' \<or> arg = ''--accepted-codes-env-name'')
   \<and> (switchArg arg = CaseVerbose \<longleftrightarrow> arg = ''-v'' \<or> arg = ''--verbose'')
   \<and> (switchArg arg = CaseInsecure \<longleftrightarrow> arg = ''-k'' \<or> arg = ''--insecure'')
   \<and> (switchArg arg = CaseHelp \<longleftrightarrow> arg = ''-h'' \<or> arg = ''--help'')
   \<and> (switchArg arg = CaseTimeout \<longleftrightarrow> arg = ''-t'' \<or> arg = ''--timeout'')
   \<and> (switchArg arg = CaseMethod \<longleftrightarrow> arg = ''-m'' \<or> arg = ''--method'')
   \<and> (switchArg arg = CaseBodyContains \<longleftrightarrow> arg = ''-b'' \<or> arg = ''--body-contains'')
   \<and> (switchArg arg = CaseBodyContainsEnvName \<longleftrightarrow>
          arg = ''-B'' \<or> arg = ''--body-contains-env-name'')"
proof (intro conjI impI)
  assume "parseArgs vars0 xs = (o1, Inr v) \<and> (h = ''-h'' \<or> h = ''--help'')
      \<and> parseArgs vars0 (xs @ h # ys) = (o2, Inr v')"
  then show "main w (xs @ h # ys) = ([Print Stdout Usage], 0)"
    using main_help by blast
next
  assume "parseArgs vars0 args = (out, Inl code)"
  then show "main w args = (out, 1)" by (rule main_exit_1)
next
  assume "parseArgs vars0 xs = (o1, Inr v) \<and> parseArg v arg rest = (out, Inl code)"
  then have "parseArgs vars0 (xs @ arg # rest) = (out, Inl code)"
    using parseArgs_error_after by blast
  then show "main w (xs @ arg # rest) = (out, 1)" by (rule main_exit_1)
next
  show "parseArg v arg rest = (out, Inl code) \<longleftrightarrow>
     code = 1 \<and>
     (switchArg arg = CaseDefault
        \<and> out = [Print Stderr (UnknownOption arg), Print Stdout Usage]
      \<or> rest = [] \<and>
         (switchArg arg = CaseUrl \<and> out = [Print Stdout (NeedsArgument ''-u/--url'')]
          \<or> switchArg arg = CaseUrlEnvName
              \<and> out = [Print Stdout (NeedsArgument ''-U/--url-env-name'')]
          \<or> switchArg arg = CaseAcceptedCodes
              \<and> out = [Print Stdout (NeedsArgument ''-c/--accepted-codes'')]
          \<or> switchArg arg = CaseAcceptedCodesEnvName
              \<and> out = [Print Stdout (NeedsArgument ''-C/--accepted-codes-env-name'')]
          \<or> switchArg arg = CaseTimeout
              \<and> out = [Print Stdout (NeedsArgument ''-t/--timeout'')]
          \<or> switchArg arg = CaseMethod
              \<and> out = [Print Stdout (NeedsArgument ''-m/--method'')]
          \<or> switchArg arg = CaseBodyContains
              \<and> out = [Print Stdout (NeedsArgument ''-b/--body-contains'')]
          \<or> switchArg arg = CaseBodyContainsEnvName
              \<and> out = [Print Stdout (NeedsArgument ''-B/--body-contains-env-name'')])
      \<or> (\<exists>a rest'. rest = a # rest' \<and> switchArg arg = CaseTimeout \<and> Atoi a = None
            \<and> out = [Print Stderr (InvalidTimeout a)])
      \<or> (\<exists>a rest'. rest = a # rest' \<and> switchArg arg = CaseMethod
            \<and> ToUpper a \<noteq> ''GET'' \<and> ToUpper a \<noteq> ''HEAD''
            \<and> out = [Print Stderr InvalidMethod]))"
    by (rule parseArg_error_iff)
next
  assume "parseArgs vars0 args = (out, Inl code)"
  then show "\<exists>pre a post u. args = pre @ a # post \<and> parseArgs vars0 pre = ([], Inr u)
           \<and> parseArg u a post = (out, Inl code)"
    by (rule parseArgs_first_error)
qed (simp_all add: switchArg_cases)

theorem help_flag_exit_0_witness:
  "main (serves 200 ''OK'' (envOf [])) [''-u'', ''http://h'', ''--help'', ''-k'']
     = ([Print Stdout Usage], 0)
   \<and> main (serves 200 ''OK'' (envOf [])) [''--help'', ''-m'', ''post'']
     = ([Print Stderr InvalidMethod], 1)
   \<and> main (serves 200 ''OK'' (envOf [])) [''-h'', ''-u'']
     = ([Print Stdout (NeedsArgument ''-u/--url'')], 1)"
proof -
  let ?w = "serves 200 ''OK'' (envOf [])"
  have p: "parseArgs vars0 [''-u'', ''http://h''] = ([], Inr (vars0\<lparr>url := ''http://h''\<rparr>))"
    by (simp add: switchArg_def parseArg_def)
  have h: "''--help'' = ''-h'' \<or> ''--help'' = ''--help''" by simp
  have q: "parseArgs vars0 ([''-u'', ''http://h''] @ ''--help'' # [''-k''])
             = ([], Inr (vars0\<lparr>url := ''http://h'', help := True, insecureSkipVerify := True\<rparr>))"
    by (simp add: switchArg_def parseArg_def)
  have p2: "parseArgs vars0 [''--help''] = ([], Inr (vars0\<lparr>help := True\<rparr>))"
    by (simp add: switchArg_def parseArg_def)
  have e2: "parseArg (vars0\<lparr>help := True\<rparr>) ''-m'' [''post'']
              = ([Print Stderr InvalidMethod], Inl 1)"
    by (simp add: switchArg_def parseArg_def string_defs)
  have p3: "parseArgs vars0 [''-h''] = ([], Inr (vars0\<lparr>help := True\<rparr>))"
    by (simp add: switchArg_def parseArg_def)
  have e3: "parseArg (vars0\<lparr>help := True\<rparr>) ''-u'' []
              = ([Print Stdout (NeedsArgument ''-u/--url'')], Inl 1)"
    by (simp add: switchArg_def parseArg_def)
  have 1: "main ?w [''-u'', ''http://h'', ''--help'', ''-k''] = ([Print Stdout Usage], 0)"
    using help_flag_exit_0[of "[''-u'', ''http://h'']" "[]" "vars0\<lparr>url := ''http://h''\<rparr>" "''--help''"
            "[''-k'']" "[]" _ ?w] p h q
    by simp
  have 2: "main ?w [''--help'', ''-m'', ''post''] = ([Print Stderr InvalidMethod], 1)"
    using help_flag_exit_0[of "[''--help'']" "[]" "vars0\<lparr>help := True\<rparr>" _ _ _ _ ?w _
            "[Print Stderr InvalidMethod]" 1 "''-m''" "[''post'']"] p2 e2
    by simp
  have 3: "main ?w [''-h'', ''-u''] = ([Print Stdout (NeedsArgument ''-u/--url'')], 1)"
    using help_flag_exit_0[of "[''-h'']" "[]" "vars0\<lparr>help := True\<rparr>" _ _ _ _ ?w _
            "[Print Stdout (NeedsArgument ''-u/--url'')]" 1 "''-u''" "[]"] p3 e3
    by simp
  from 1 2 3 show ?thesis by simp
qed

text \<open>
  C6, as the claim states it, fails: a timeout that parses to zero or to a negative
  integer is accepted, and the request is issued.
\<close>

theorem nonpositive_timeout_accepted:
  "Atoi ''0'' = Some 0
   \<and> main (serves 200 ''OK'' (envOf [])) [''-u'', ''http://h'', ''-t'', ''0'']
       = ([HttpRequest ''GET'' ''http://h''], 0)
   \<and> Atoi ''-5'' = Some (- 5)
   \<and> main (serves 200 ''OK'' (envOf [])) [''-u'', ''http://h'', ''-t'', ''-5'']
       = ([HttpRequest ''GET'' ''http://h''], 0)"
  by (simp add: main_defs configure_defs string_defs)

text \<open>
  C6, amended. The timeout is an integer number of seconds, 5 by default. When
  \<^verbatim>\<open>-t\<close> or \<^verbatim>\<open>--timeout\<close> stands where an option is read (after arguments that
  parse) and the argument after it is not an integer, the program writes the
  parse-error diagnostic to the error stream, and nothing else, and exits with status 1:
  no request is issued. When it is an integer, of any sign, it becomes the timeout and
  the loop goes on.
\<close>

theorem timeout_parse_failure_exit_1:
  assumes "parseArgs vars0 xs = (out, Inr v)"
    and "t = ''-t'' \<or> t = ''--timeout''"
  shows "timeoutSeconds vars0 = 5
         \<and> (Atoi a = None \<longrightarrow> main w (xs @ t # a # ys) = ([Print Stderr (InvalidTimeout a)], 1))
         \<and> (\<forall>n. Atoi a = Some n \<longrightarrow>
               parseArgs vars0 (xs @ t # a # ys) = parseArgs (v\<lparr>timeoutSeconds := n\<rparr>) ys)"
proof -
  have "parseArgs vars0 (xs @ t # a # ys) = parseArgs v (t # a # ys)"
    by (rule parseArgs_append[OF assms(1)])
  also have "\<dots> =
       (case Atoi a of
          None \<Rightarrow> ([Print Stderr (InvalidTimeout a)], Inl 1)
        | Some n \<Rightarrow> parseArgs (v\<lparr>timeoutSeconds := n\<rparr>) ys)"
    by (rule parseArgs_CaseTimeout[OF switchArg_timeout[OF assms(2)]])
  finally have p: "parseArgs vars0 (xs @ t # a # ys) =
       (case Atoi a of
          None \<Rightarrow> ([Print Stderr (InvalidTimeout a)], Inl 1)
        | Some n \<Rightarrow> parseArgs (v\<lparr>timeoutSeconds := n\<rparr>) ys)" .
  have "main w (xs @ t # a # ys) = ([Print Stderr (InvalidTimeout a)], 1)" if "Atoi a = None"
    using p that by (intro main_usage_error) simp_all
  moreover have "timeoutSeconds vars0 = 5" by (simp add: vars0_def)
  ultimately show ?thesis using p by simp
qed


theorem timeout_parse_failure_exit_1_witness:
  "Atoi ''abc'' = None
   \<and> main (serves 200 ''OK'' (envOf [])) [''-u'', ''http://h'', ''-t'', ''abc'']
       = ([Print Stderr (InvalidTimeout ''abc'')], 1)"
proof -
  have p: "parseArgs vars0 [''-u'', ''http://h''] = ([], Inr (vars0\<lparr>url := ''http://h''\<rparr>))"
    by (simp add: switchArg_def parseArg_def)
  have t: "''-t'' = ''-t'' \<or> ''-t'' = ''--timeout''" by simp
  have a: "Atoi ''abc'' = None" by (simp add: string_defs)
  from timeout_parse_failure_exit_1[OF p t, of "''abc''" "serves 200 ''OK'' (envOf [])" "[]"] a show ?thesis by simp
qed

text \<open>
  C8, as the claim states it, fails: without arguments the program prints the usage text
  and exits with status 0, with \<^verbatim>\<open>-v\<close> alone it misses the URL and exits with
  status 1.
\<close>

theorem verbose_alone_changes_exit_status:
  "exitCode (main (serves 200 ''OK'' (envOf [])) []) = 0
   \<and> exitCode (main (serves 200 ''OK'' (envOf [])) [''-v'']) = 1"
  by (simp add: main_defs configure_defs)

text \<open>
  C8, amended. For two argument lists that differ only in a \<^verbatim>\<open>-v\<close> or
  \<^verbatim>\<open>--verbose\<close> standing where an option is read (after arguments that parse), the
  one without it not being empty, the exit status is the same: the option changes what
  is written only.
\<close>

theorem verbose_keeps_exit_status:
  assumes "parseArgs vars0 xs = (out, Inr v)"
    and "f = ''-v'' \<or> f = ''--verbose''"
    and "xs @ ys \<noteq> []"
  shows "exitCode (main w (xs @ f # ys)) = exitCode (main w (xs @ ys))"
proof -
  have "parseArgs vars0 (xs @ f # ys) = parseArgs v (f # ys)"
    by (rule parseArgs_append[OF assms(1)])
  also have "\<dots> = parseArgs (v\<lparr>verbose := True\<rparr>) ys"
    by (rule parseArgs_CaseVerbose[OF switchArg_verbose[OF assms(2)]])
  finally have with_flag: "parseArgs vars0 (xs @ f # ys) =
     (case parseArgs v ys of
        (out, Inl code) \<Rightarrow> (out, Inl code)
      | (out, Inr v') \<Rightarrow> (out, Inr (v'\<lparr>verbose := True\<rparr>)))"
    by (simp only: parseArgs_verbose)
  have without: "parseArgs vars0 (xs @ ys) = parseArgs v ys"
    by (rule parseArgs_append[OF assms(1)])
  obtain o1 r1 where p: "parseArgs v ys = (o1, r1)" by (cases "parseArgs v ys")
  have ne: "xs @ f # ys \<noteq> []" by simp
  show ?thesis
  proof (cases r1)
    case (Inl code)
    with p with_flag without show ?thesis
      by (simp add: exitCode_stages[OF ne] exitCode_stages[OF assms(3)])
  next
    case (Inr v')
    with p with_flag without show ?thesis
      by (simp add: exitCode_stages[OF ne] exitCode_stages[OF assms(3)] afterArgs_verbose
            probe_verbose split: sum.splits)
  qed
qed

theorem verbose_keeps_exit_status_witness:
  "exitCode (main (serves 200 ''OK'' (envOf [])) [''-u'', ''http://h'', ''-v'', ''-c'', ''404''])
     = exitCode (main (serves 200 ''OK'' (envOf [])) [''-u'', ''http://h'', ''-c'', ''404''])
   \<and> trace (main (serves 200 ''OK'' (envOf [])) [''-u'', ''http://h'', ''-v'', ''-c'', ''404''])
     \<noteq> trace (main (serves 200 ''OK'' (envOf [])) [''-u'', ''http://h'', ''-c'', ''404''])"
proof -
  have p: "parseArgs vars0 [''-u'', ''http://h''] = ([], Inr (vars0\<lparr>url := ''http://h''\<rparr>))"
    by (simp add: switchArg_def parseArg_def)
  have f: "''-v'' = ''-v'' \<or> ''-v'' = ''--verbose''" by simp
  have n: "[''-u'', ''http://h''] @ [''-c'', ''404''] \<noteq> []" by simp
  have t: "trace (main (serves 200 ''OK'' (envOf [])) [''-u'', ''http://h'', ''-v'', ''-c'', ''404''])
     \<noteq> trace (main (serves 200 ''OK'' (envOf [])) [''-u'', ''http://h'', ''-c'', ''404''])"
    by (simp add: main_defs configure_defs string_defs)
  from verbose_keeps_exit_status[OF p f n, of "serves 200 ''OK'' (envOf [])"] t show ?thesis by simp
qed

subsection \<open>The accepted codes\<close>

text \<open>
  C7. The accepted codes are a function of the comma-separated string alone. The string
  is cut at every comma; every element is trimmed of the white space at its two ends,
  and of nothing else, and read as an integer: decimal digits after an optional sign,
  within the range of \<^verbatim>\<open>int\<close>. One element that is not an integer makes the program
  exit with status 1; otherwise the codes accepted are exactly the integers read. So
  the result is the same for two strings with the same trimmed elements, in any order
  and any number of times, and white space around an element changes nothing. (The
  empty string is not parsed: no codes are configured then.)
\<close>

theorem accepted_codes_parsing:
  "(s \<noteq> [] \<and> (\<exists>x\<in>set (Split s). Atoi (TrimSpace x) = None) \<longrightarrow>
      snd (parseAcceptedCodes s) = Inl 1)
   \<and> (s \<noteq> [] \<and> (\<forall>x\<in>set (Split s). Atoi (TrimSpace x) \<noteq> None) \<longrightarrow>
        parseAcceptedCodes s =
          ([], Inr (Some (\<lambda>k. if Some k \<in> (\<lambda>x. Atoi (TrimSpace x)) ` set (Split s)
                               then Some True else None))))
   \<and> (s \<noteq> [] \<and> t \<noteq> [] \<and> TrimSpace ` set (Split t) = TrimSpace ` set (Split s) \<longrightarrow>
        snd (parseAcceptedCodes t) = snd (parseAcceptedCodes s))
   \<and> (CHR '','' \<notin> set x \<longrightarrow>
        Split x = [x] \<and> Split (x @ CHR '','' # rest) = x # Split rest)
   \<and> (set ls \<subseteq> set spaceRunes \<and> set rs \<subseteq> set spaceRunes \<longrightarrow>
        TrimSpace (concat ls @ x @ concat rs) = TrimSpace x)
   \<and> ((\<forall>w\<in>set spaceRunes. \<forall>r. x \<noteq> w @ r \<and> x \<noteq> r @ w) \<longrightarrow> TrimSpace x = x)
   \<and> (\<exists>ls rs. set ls \<subseteq> set spaceRunes \<and> set rs \<subseteq> set spaceRunes
         \<and> s = concat ls @ TrimSpace s @ concat rs)
   \<and> (\<forall>w\<in>set spaceRunes. \<forall>r. TrimSpace s \<noteq> w @ r \<and> TrimSpace s \<noteq> r @ w)
   \<and> (ds \<noteq> [] \<and> (\<forall>c\<in>set ds. c \<in> set ''0123456789'') \<longrightarrow>
        Atoi ds =
          (if int (foldl (\<lambda>n c. n * 10 + (of_char c - 48)) 0 ds) < 2 ^ 63
           then Some (int (foldl (\<lambda>n c. n * 10 + (of_char c - 48)) 0 ds)) else None)
        \<and> Atoi (CHR ''+'' # ds) = Atoi ds
        \<and> Atoi (CHR ''-'' # ds) =
          (if int (foldl (\<lambda>n c. n * 10 + (of_char c - 48)) 0 ds) \<le> 2 ^ 63
           then Some (- int (foldl (\<lambda>n c. n * 10 + (of_char c - 48)) 0 ds)) else None))
   \<and> (Atoi y \<noteq> None \<longrightarrow>
        (\<exists>ds. ds \<noteq> [] \<and> (\<forall>c\<in>set ds. c \<in> set ''0123456789'')
           \<and> (y = ds \<or> y = CHR ''+'' # ds \<or> y = CHR ''-'' # ds)))
   \<and> parseAcceptedCodes [] = ([], Inr None)"
proof (intro conjI impI)
  assume "s \<noteq> [] \<and> (\<exists>x\<in>set (Split s). Atoi (TrimSpace x) = None)"
  then show "snd (parseAcceptedCodes s) = Inl 1"
    using parseAcceptedCodes_result[of s] by auto
next
  assume "s \<noteq> [] \<and> (\<forall>x\<in>set (Split s). Atoi (TrimSpace x) \<noteq> None)"
  then show "parseAcceptedCodes s =
          ([], Inr (Some (\<lambda>k. if Some k \<in> (\<lambda>x. Atoi (TrimSpace x)) ` set (Split s)
                               then Some True else None)))"
    using parseAcceptedCodes_ok by blast
next
  assume "s \<noteq> [] \<and> t \<noteq> [] \<and> TrimSpace ` set (Split t) = TrimSpace ` set (Split s)"
  then show "snd (parseAcceptedCodes t) = snd (parseAcceptedCodes s)"
    using parseAcceptedCodes_same by blast
next
  assume "CHR '','' \<notin> set x"
  then show "Split x = [x]" by (rule Split_no_comma)
next
  assume "CHR '','' \<notin> set x"
  then show "Split (x @ CHR '','' # rest) = x # Split rest" by (rule Split_comma)
next
  assume "set ls \<subseteq> set spaceRunes \<and> set rs \<subseteq> set spaceRunes"
  then show "TrimSpace (concat ls @ x @ concat rs) = TrimSpace x"
    by (simp add: TrimSpace_padded)
next
  assume "\<forall>w\<in>set spaceRunes. \<forall>r. x \<noteq> w @ r \<and> x \<noteq> r @ w"
  then show "TrimSpace x = x" by (rule TrimSpace_clean_id)
next
  show "\<exists>ls rs. set ls \<subseteq> set spaceRunes \<and> set rs \<subseteq> set spaceRunes
         \<and> s = concat ls @ TrimSpace s @ concat rs"
    by (rule TrimSpace_removed)
next
  show "\<forall>w\<in>set spaceRunes. \<forall>r. TrimSpace s \<noteq> w @ r \<and> TrimSpace s \<noteq> r @ w"
    using TrimSpace_clean by blast
next
  assume a: "ds \<noteq> [] \<and> (\<forall>c\<in>set ds. c \<in> set ''0123456789'')"
  then show "Atoi ds =
          (if int (foldl (\<lambda>n c. n * 10 + (of_char c - 48)) 0 ds) < 2 ^ 63
           then Some (int (foldl (\<lambda>n c. n * 10 + (of_char c - 48)) 0 ds)) else None)"
    using Atoi_digits(1) by blast
  from a show "Atoi (CHR ''+'' # ds) = Atoi ds"
    using Atoi_digits(1)[of ds] Atoi_digits(2)[of ds] by simp
  from a show "Atoi (CHR ''-'' # ds) =
          (if int (foldl (\<lambda>n c. n * 10 + (of_char c - 48)) 0 ds) \<le> 2 ^ 63
           then Some (- int (foldl (\<lambda>n c. n * 10 + (of_char c - 48)) 0 ds)) else None)"
    using Atoi_digits(3) by blast
next
  assume "Atoi y \<noteq> None"
  then obtain i where "Atoi y = Some i" by auto
  then show "\<exists>ds. ds \<noteq> [] \<and> (\<forall>c\<in>set ds. c \<in> set ''0123456789'')
           \<and> (y = ds \<or> y = CHR ''+'' # ds \<or> y = CHR ''-'' # ds)"
    by (rule Atoi_Some)
next
  show "parseAcceptedCodes [] = ([], Inr None)"
    by (simp add: parseAcceptedCodes_def)
qed

theorem accepted_codes_parsing_witness:
  "Split ''200,404'' = [''200'', ''404'']
   \<and> TrimSpace '' 404 '' = ''404''
   \<and> TrimSpace [CHR 0xC2, CHR 0xA0, CHR ''2'', CHR ''0'', CHR ''0'',
                 CHR 0xE3, CHR 0x80, CHR 0x80] = ''200''
   \<and> Atoi ''200'' = Some 200 \<and> Atoi ''404'' = Some 404 \<and> Atoi ''abc'' = None
   \<and> parseAcceptedCodes ''200,404'' = ([], Inr (Some [200 \<mapsto> True, 404 \<mapsto> True]))
   \<and> snd (parseAcceptedCodes '' 404 ,200,404'') = snd (parseAcceptedCodes ''200,404'')
   \<and> snd (parseAcceptedCodes ''404,200'') = snd (parseAcceptedCodes ''200,404'')
   \<and> snd (parseAcceptedCodes ''200,abc'') = Inl 1
   \<and> parseAcceptedCodes [] = ([], Inr None)"
proof -
  have sp: "set [[CHR 0x20]] \<subseteq> set spaceRunes \<and> set [[CHR 0x20]] \<subseteq> set spaceRunes"
    by (simp add: spaceRunes_def)
  have c404: "\<forall>w\<in>set spaceRunes. \<forall>r. ''404'' \<noteq> w @ r \<and> ''404'' \<noteq> r @ w"
    by (rule clean_evalI) (simp add: spaceRunes_def HasPrefix_def HasSuffix_def)
  have c200: "\<forall>w\<in>set spaceRunes. \<forall>r. ''200'' \<noteq> w @ r \<and> ''200'' \<noteq> r @ w"
    by (rule clean_evalI) (simp add: spaceRunes_def HasPrefix_def HasSuffix_def)
  have cabc: "\<forall>w\<in>set spaceRunes. \<forall>r. ''abc'' \<noteq> w @ r \<and> ''abc'' \<noteq> r @ w"
    by (rule clean_evalI) (simp add: spaceRunes_def HasPrefix_def HasSuffix_def)
  have nc: "CHR '','' \<notin> set ''200''" "CHR '','' \<notin> set ''404''" "CHR '','' \<notin> set '' 404 ''"
    "CHR '','' \<notin> set ''abc''"
    by simp_all
  have dg: "''200'' \<noteq> [] \<and> (\<forall>c\<in>set ''200''. c \<in> set ''0123456789'')"
    "''404'' \<noteq> [] \<and> (\<forall>c\<in>set ''404''. c \<in> set ''0123456789'')"
    by simp_all
  from accepted_codes_parsing[where x = "''404''", THEN conjunct2, THEN conjunct2, THEN conjunct2, THEN conjunct1] nc have s404: "Split ''404'' = [''404'']" by simp
  from accepted_codes_parsing[where x = "''200''", THEN conjunct2, THEN conjunct2, THEN conjunct2, THEN conjunct1] nc have s200: "Split ''200'' = [''200'']" by simp
  from accepted_codes_parsing[where x = "''abc''", THEN conjunct2, THEN conjunct2, THEN conjunct2, THEN conjunct1] nc have sabc: "Split ''abc'' = [''abc'']" by simp
  from accepted_codes_parsing[where x = "''200''" and rest = "''404''", THEN conjunct2, THEN conjunct2, THEN conjunct2, THEN conjunct1] nc s404
  have 1: "Split ''200,404'' = [''200'', ''404'']" by simp
  from accepted_codes_parsing[where x = "''404''" and rest = "''200''", THEN conjunct2, THEN conjunct2, THEN conjunct2, THEN conjunct1] nc s200
  have s2: "Split ''404,200'' = [''404'', ''200'']" by simp
  from accepted_codes_parsing[where x = "''200''" and rest = "''abc''", THEN conjunct2, THEN conjunct2, THEN conjunct2, THEN conjunct1] nc sabc
  have s3: "Split ''200,abc'' = [''200'', ''abc'']" by simp
  from accepted_codes_parsing[where x = "'' 404 ''" and rest = "''200,404''", THEN conjunct2, THEN conjunct2, THEN conjunct2, THEN conjunct1] nc 1
  have s4: "Split '' 404 ,200,404'' = ['' 404 '', ''200'', ''404'']" by simp
  from accepted_codes_parsing[where x = "''404''", THEN conjunct2, THEN conjunct2, THEN conjunct2, THEN conjunct2, THEN conjunct2, THEN conjunct1] c404 have t404: "TrimSpace ''404'' = ''404''" by (rule mp)
  from accepted_codes_parsing[where x = "''200''", THEN conjunct2, THEN conjunct2, THEN conjunct2, THEN conjunct2, THEN conjunct2, THEN conjunct1] c200 have t200: "TrimSpace ''200'' = ''200''" by (rule mp)
  from accepted_codes_parsing[where x = "''abc''", THEN conjunct2, THEN conjunct2, THEN conjunct2, THEN conjunct2, THEN conjunct2, THEN conjunct1] cabc have tabc: "TrimSpace ''abc'' = ''abc''" by (rule mp)
  from accepted_codes_parsing[where ls = "[[CHR 0x20]]" and rs = "[[CHR 0x20]]" and x = "''404''", THEN conjunct2, THEN conjunct2, THEN conjunct2, THEN conjunct2, THEN conjunct1] sp
  have "TrimSpace (concat [[CHR 0x20]] @ ''404'' @ concat [[CHR 0x20]]) = TrimSpace ''404''"
    by (rule mp)
  with t404 have 2: "TrimSpace '' 404 '' = ''404''" by simp
  have sp2: "set [[CHR 0xC2, CHR 0xA0]] \<subseteq> set spaceRunes
               \<and> set [[CHR 0xE3, CHR 0x80, CHR 0x80]] \<subseteq> set spaceRunes"
    by (simp add: spaceRunes_def)
  from accepted_codes_parsing[where ls = "[[CHR 0xC2, CHR 0xA0]]"
         and rs = "[[CHR 0xE3, CHR 0x80, CHR 0x80]]" and x = "''200''",
         THEN conjunct2, THEN conjunct2, THEN conjunct2, THEN conjunct2, THEN conjunct1] sp2
  have "TrimSpace (concat [[CHR 0xC2, CHR 0xA0]] @ ''200''
                     @ concat [[CHR 0xE3, CHR 0x80, CHR 0x80]]) = TrimSpace ''200''"
    by (rule mp)
  with t200
  have 11: "TrimSpace [CHR 0xC2, CHR 0xA0, CHR ''2'', CHR ''0'', CHR ''0'',
                       CHR 0xE3, CHR 0x80, CHR 0x80] = ''200''"
    by simp
  from accepted_codes_parsing[where ds = "''200''", THEN conjunct2, THEN conjunct2, THEN conjunct2, THEN conjunct2, THEN conjunct2, THEN conjunct2, THEN conjunct2, THEN conjunct2, THEN conjunct1] dg have 3: "Atoi ''200'' = Some 200" by simp
  from accepted_codes_parsing[where ds = "''404''", THEN conjunct2, THEN conjunct2, THEN conjunct2, THEN conjunct2, THEN conjunct2, THEN conjunct2, THEN conjunct2, THEN conjunct2, THEN conjunct1] dg have 4: "Atoi ''404'' = Some 404" by simp
  have 5: "Atoi ''abc'' = None"
  proof (rule ccontr)
    assume "Atoi ''abc'' \<noteq> None"
    with accepted_codes_parsing[where y = "''abc''", THEN conjunct2, THEN conjunct2, THEN conjunct2, THEN conjunct2, THEN conjunct2, THEN conjunct2, THEN conjunct2, THEN conjunct2, THEN conjunct2, THEN conjunct1]
    have "\<exists>ds. ds \<noteq> [] \<and> (\<forall>c\<in>set ds. c \<in> set ''0123456789'')
           \<and> (''abc'' = ds \<or> ''abc'' = CHR ''+'' # ds \<or> ''abc'' = CHR ''-'' # ds)"
      by (rule mp)
    then obtain ds where d: "\<forall>c\<in>set ds. c \<in> set ''0123456789''"
      and e: "''abc'' = ds \<or> ''abc'' = CHR ''+'' # ds \<or> ''abc'' = CHR ''-'' # ds"
      by (elim exE conjE)
    from e have "ds = ''abc''" by simp
    with d show False by simp
  qed
  have ok: "''200,404'' \<noteq> [] \<and> (\<forall>x\<in>set (Split ''200,404''). Atoi (TrimSpace x) \<noteq> None)"
    by (simp add: 1 t200 t404 3 4)
  have m: "(\<lambda>k. if Some k \<in> (\<lambda>x. Atoi (TrimSpace x)) ` set (Split ''200,404'')
                then Some True else None) = [200 \<mapsto> True, 404 \<mapsto> True]"
    by (rule ext) (simp add: 1 t200 t404 3 4)
  from accepted_codes_parsing[where s = "''200,404''", THEN conjunct2, THEN conjunct1] ok
  have "parseAcceptedCodes ''200,404'' =
          ([], Inr (Some (\<lambda>k. if Some k \<in> (\<lambda>x. Atoi (TrimSpace x)) ` set (Split ''200,404'')
                               then Some True else None)))"
    by (rule mp)
  then have 6: "parseAcceptedCodes ''200,404'' = ([], Inr (Some [200 \<mapsto> True, 404 \<mapsto> True]))"
    by (simp only: m)
  have e1: "''200,404'' \<noteq> [] \<and> '' 404 ,200,404'' \<noteq> []
      \<and> TrimSpace ` set (Split '' 404 ,200,404'') = TrimSpace ` set (Split ''200,404'')"
    by (simp add: 1 s4 2 t200 t404 insert_commute)
  have e2: "''200,404'' \<noteq> [] \<and> ''404,200'' \<noteq> []
      \<and> TrimSpace ` set (Split ''404,200'') = TrimSpace ` set (Split ''200,404'')"
    by (simp add: 1 s2 t200 t404 insert_commute)
  from accepted_codes_parsing[where s = "''200,404''" and t = "'' 404 ,200,404''", THEN conjunct2, THEN conjunct2, THEN conjunct1] e1
  have 7: "snd (parseAcceptedCodes '' 404 ,200,404'') = snd (parseAcceptedCodes ''200,404'')"
    by (rule mp)
  from accepted_codes_parsing[where s = "''200,404''" and t = "''404,200''", THEN conjunct2, THEN conjunct2, THEN conjunct1] e2
  have 8: "snd (parseAcceptedCodes ''404,200'') = snd (parseAcceptedCodes ''200,404'')"
    by (rule mp)
  have f: "''200,abc'' \<noteq> [] \<and> (\<exists>x\<in>set (Split ''200,abc''). Atoi (TrimSpace x) = None)"
    by (simp add: s3 tabc 5)
  from accepted_codes_parsing[where s = "''200,abc''", THEN conjunct1] f
  have 9: "snd (parseAcceptedCodes ''200,abc'') = Inl 1" by (rule mp)
  note 10 = accepted_codes_parsing[THEN conjunct2, THEN conjunct2, THEN conjunct2,
      THEN conjunct2, THEN conjunct2, THEN conjunct2, THEN conjunct2, THEN conjunct2,
      THEN conjunct2, THEN conjunct2]
  show ?thesis using 1 2 11 3 4 5 6 7 8 9 10 by (intro conjI)
qed

end
